theory Spec2Isabelle
  imports Main "HOL-Library.AList" "HOL-Library.Sublist"
begin

unbundle bit_operations_syntax

section \<open>Python values\<close>

text \<open>
  The values that \<^verbatim>\<open>json.loads\<close> produces, which are also the values a schema, a
  dictionary key or a document holds. A JSON object is a Python \<^verbatim>\<open>dict\<close>: an
  association list in insertion order, read with \<^const>\<open>map_of\<close> and written with
  \<^const>\<open>AList.update\<close> (an existing key keeps its position, a new key goes last, as in
  Python). Numbers are Python's unbounded \<^verbatim>\<open>int\<close>; fractional JSON numbers
  (Python's \<^verbatim>\<open>float\<close>) are not represented.
\<close>

datatype json =
    JNull
  | JBool bool
  | JInt int
  | JStr string
  | JList "json list"
  | JDict "(string \<times> json) list"

type_synonym schema = "(string \<times> json) list"

text \<open>Python's \<^verbatim>\<open>==\<close> on these values: \<^verbatim>\<open>True == 1\<close>, \<^verbatim>\<open>False == 0\<close>, lists
  compare element by element, dictionaries compare key by key whatever their order.\<close>

fun py_eq :: "json \<Rightarrow> json \<Rightarrow> bool"
and py_eq_list :: "json list \<Rightarrow> json list \<Rightarrow> bool"
and py_eq_items :: "(string \<times> json) list \<Rightarrow> (string \<times> json) list \<Rightarrow> bool"
where
  "py_eq JNull b = (b = JNull)"
| "py_eq (JBool x) b =
     (case b of JBool y \<Rightarrow> x = y | JInt j \<Rightarrow> (if x then 1 else 0) = j | _ \<Rightarrow> False)"
| "py_eq (JInt i) b =
     (case b of JBool y \<Rightarrow> i = (if y then 1 else 0) | JInt j \<Rightarrow> i = j | _ \<Rightarrow> False)"
| "py_eq (JStr s) b = (b = JStr s)"
| "py_eq (JList xs) b = (case b of JList ys \<Rightarrow> py_eq_list xs ys | _ \<Rightarrow> False)"
| "py_eq (JDict d) b =
     (case b of JDict e \<Rightarrow> length d = length e \<and> py_eq_items d e | _ \<Rightarrow> False)"
| "py_eq_list [] ys = (ys = [])"
| "py_eq_list (x # xs) ys =
     (case ys of [] \<Rightarrow> False | y # ys' \<Rightarrow> py_eq x y \<and> py_eq_list xs ys')"
| "py_eq_items [] e = True"
| "py_eq_items ((k, v) # d) e =
     (case map_of e k of None \<Rightarrow> False | Some w \<Rightarrow> py_eq v w \<and> py_eq_items d e)"

text \<open>Python's truth value of an object, as \<^verbatim>\<open>version and ...\<close> tests it.\<close>

fun truthy :: "json \<Rightarrow> bool" where
  "truthy JNull = False"
| "truthy (JBool b) = b"
| "truthy (JInt i) = (i \<noteq> 0)"
| "truthy (JStr s) = (s \<noteq> [])"
| "truthy (JList xs) = (xs \<noteq> [])"
| "truthy (JDict d) = (d \<noteq> [])"

text \<open>\<^verbatim>\<open>isinstance(key, str)\<close>.\<close>

fun is_str :: "json \<Rightarrow> bool" where
  "is_str (JStr s) = True"
| "is_str v = False"

section \<open>Exceptions\<close>

text \<open>
  Every exception the modelled code raises is a value; a function that may raise returns
  \<open>error + 'a\<close> with \<open>Inl\<close> for the exception. \<open>AttributionMissingError\<close> is a name
  of the specification only: no function of the source raises it. \<open>Raised\<close> stands for
  an exception of an external collaborator (the compiled validator, an extra-validation
  function), by its message.
\<close>

datatype error =
    SchemaMissingId string
  | InvalidSchemaVersion string json json
  | SchemaWithDuplicatedId json
  | KeyError json
  | TypeError string
  | AttributeError string
  | ImportError string
  | StopIteration
  | FileNotFoundError string
  | AttributionMissingError
  | Raised string

fun bind_err :: "error + 'a \<Rightarrow> ('a \<Rightarrow> error + 'b) \<Rightarrow> error + 'b" where
  "bind_err (Inl e) f = Inl e"
| "bind_err (Inr x) f = f x"

section \<open>Dictionaries\<close>

text \<open>\<^verbatim>\<open>k in d\<close>, \<^verbatim>\<open>d.get(k)\<close> and \<^verbatim>\<open>d[k]\<close> for a dictionary with string keys.\<close>

definition dict_in :: "string \<Rightarrow> (string \<times> 'v) list \<Rightarrow> bool" where
  "dict_in k d = (map_of d k \<noteq> None)"

definition dict_get :: "schema \<Rightarrow> string \<Rightarrow> json" where
  "dict_get d k = (case map_of d k of None \<Rightarrow> JNull | Some v \<Rightarrow> v)"

definition dict_getitem :: "schema \<Rightarrow> string \<Rightarrow> error + json" where
  "dict_getitem d k = (case map_of d k of None \<Rightarrow> Inl (KeyError (JStr k)) | Some v \<Rightarrow> Inr v)"

text \<open>\<^verbatim>\<open>dict(pairs)\<close>: the pairs are inserted one after the other, so a later pair
  replaces the value of an equal earlier key.\<close>

definition py_dict :: "(string \<times> 'v) list \<Rightarrow> (string \<times> 'v) list" where
  "py_dict pairs = foldl (\<lambda>d (k, v). AList.update k v d) [] pairs"

text \<open>
  The same operations on a value that need not be a dictionary: \<^verbatim>\<open>v[k]\<close>,
  \<^verbatim>\<open>v.setdefault(k, {})\<close> (the value under \<open>k\<close> and the dictionary after the call),
  \<^verbatim>\<open>k in v\<close> and \<^verbatim>\<open>v[k] = x\<close>, with the exception Python raises on the other types.
\<close>

fun is_substring :: "string \<Rightarrow> string \<Rightarrow> bool" where
  "is_substring s [] = (s = [])"
| "is_substring s (c # cs) = (take (length s) (c # cs) = s \<or> is_substring s cs)"

fun json_getitem :: "json \<Rightarrow> string \<Rightarrow> error + json" where
  "json_getitem (JDict d) k = dict_getitem d k"
| "json_getitem v k = Inl (TypeError ''not subscriptable by a string'')"

fun json_setdefault :: "json \<Rightarrow> string \<Rightarrow> error + (json \<times> schema)" where
  "json_setdefault (JDict d) k =
     (case map_of d k of
        None \<Rightarrow> Inr (JDict [], AList.update k (JDict []) d)
      | Some v \<Rightarrow> Inr (v, d))"
| "json_setdefault v k = Inl (AttributeError ''setdefault'')"

fun json_contains :: "json \<Rightarrow> string \<Rightarrow> error + bool" where
  "json_contains (JDict d) k = Inr (dict_in k d)"
| "json_contains (JList xs) k = Inr (list_ex (py_eq (JStr k)) xs)"
| "json_contains (JStr s) k = Inr (is_substring k s)"
| "json_contains v k = Inl (TypeError ''argument is not iterable'')"

fun json_setitem :: "json \<Rightarrow> string \<Rightarrow> json \<Rightarrow> error + json" where
  "json_setitem (JDict d) k x = Inr (JDict (AList.update k x d))"
| "json_setitem v k x = Inl (TypeError ''does not support item assignment'')"

text \<open>
  A key of a dictionary is hashed. The hashable values are \<^verbatim>\<open>None\<close>, booleans,
  integers and strings, and \<open>key\<close> has one value for each class of Python-equal ones
  (\<^verbatim>\<open>True\<close> and \<^verbatim>\<open>1\<close> are the same key); a list or a dictionary raises \<^verbatim>\<open>TypeError\<close>.
\<close>

datatype key = KNone | KNum int | KStr string

fun hash_key :: "json \<Rightarrow> error + key" where
  "hash_key JNull = Inr KNone"
| "hash_key (JBool b) = Inr (KNum (if b then 1 else 0))"
| "hash_key (JInt i) = Inr (KNum i)"
| "hash_key (JStr s) = Inr (KStr s)"
| "hash_key (JList xs) = Inl (TypeError ''unhashable type'')"
| "hash_key (JDict d) = Inl (TypeError ''unhashable type'')"

section \<open>Plugins\<close>

text \<open>
  The plugin protocol, as \<^verbatim>\<open>api.py\<close> reads it: the module and the qualified class name
  (for \<^verbatim>\<open>plugin_id\<close>), \<^verbatim>\<open>tool_name\<close>, \<^verbatim>\<open>tool_schema\<close>, and the optional attribute
  \<^verbatim>\<open>format_validators\<close> (\<open>None\<close> when \<^verbatim>\<open>hasattr\<close> is false). \<open>'f\<close> is the type of
  format functions.
\<close>

record 'f plugin =
  plugin_module :: string
  plugin_qualname :: string
  tool_name :: string
  tool_schema :: schema
  format_validators :: "(string \<times> 'f) list option"

definition plugin_id :: "'f plugin \<Rightarrow> string" where
  "plugin_id p = plugin_module p @ ''.'' @ plugin_qualname p"

section \<open>SchemaRegistry\<close>

text \<open>
  \<^verbatim>\<open>_schemas\<close> maps a schema id to (which part of the TOML, who defines, schema). The
  two core schemas are resources of the package that \<^verbatim>\<open>load\<close> reads; they are the
  parameters \<open>top_level_res\<close> (\<^verbatim>\<open>pyproject_toml.schema.json\<close>) and \<open>project_res\<close>
  (\<^verbatim>\<open>pep621_project.schema.json\<close>) of the constructor. The logger's records are
  returned with the registry.
\<close>

type_synonym entry = "string \<times> string \<times> schema"

record schema_registry =
  r_schemas :: "(key \<times> entry) list"
  r_spec_version :: json
  r_main_id :: json

datatype log_record = Warning string | Info string

definition api_name :: string where
  "api_name = ''validate_pyproject.api''"

definition ensure_compatibility ::
  "(key \<times> entry) list \<Rightarrow> json \<Rightarrow> string \<Rightarrow> schema \<Rightarrow> error + schema" where
  "ensure_compatibility schemas spec_version reference schema =
     (if \<not> dict_in ''$id'' schema then Inl (SchemaMissingId reference)
      else
        let version = dict_get schema ''$schema'' in
        if truthy version \<and> \<not> py_eq version spec_version
        then Inl (InvalidSchemaVersion reference version spec_version)
        else
          bind_err (dict_getitem schema ''$id'') (\<lambda>sid.
          bind_err (hash_key sid) (\<lambda>k.
            if map_of schemas k \<noteq> None then Inl (SchemaWithDuplicatedId sid)
            else Inr schema)))"

text \<open>The state of the loop over the plugins: the dictionary \<^verbatim>\<open>tool_properties\<close> (a
  part of the top-level schema, mutated in place), \<^verbatim>\<open>self._schemas\<close> and the log.\<close>

record loop_state =
  tool_properties :: json
  schemas :: "(key \<times> entry) list"
  logged :: "log_record list"

definition register_plugin :: "json \<Rightarrow> 'f plugin \<Rightarrow> loop_state \<Rightarrow> error + loop_state" where
  "register_plugin spec_version p st =
     (let pid = plugin_id p; tool = tool_name p; schema = tool_schema p in
      bind_err (json_contains (tool_properties st) tool) (\<lambda>present.
        let logged' = logged st @
          [if present
           then Warning (pid @ '' overwrites '' @ [CHR 0x60] @ ''tool.'' @ tool @ [CHR 0x60] @ '' schema'')
           else Info (pid @ '' defines '' @ [CHR 0x60] @ ''tool.'' @ tool @ [CHR 0x60] @ '' schema'')]
        in
        bind_err (ensure_compatibility (schemas st) spec_version tool schema) (\<lambda>checked.
        bind_err (dict_getitem checked ''$id'') (\<lambda>sid.
        bind_err (json_setitem (tool_properties st) tool (JDict [(''$ref'', sid)])) (\<lambda>tp.
        bind_err (hash_key sid) (\<lambda>k.
          Inr \<lparr>tool_properties = tp,
               schemas = AList.update k (''tool.'' @ tool, pid, schema) (schemas st),
               logged = logged'\<rparr>))))))"

fun register_plugins :: "json \<Rightarrow> 'f plugin list \<Rightarrow> loop_state \<Rightarrow> error + loop_state" where
  "register_plugins spec_version [] st = Inr st"
| "register_plugins spec_version (p # ps) st =
     bind_err (register_plugin spec_version p st) (register_plugins spec_version ps)"

definition SchemaRegistry_init ::
  "schema \<Rightarrow> schema \<Rightarrow> 'f plugin list \<Rightarrow> error + (schema_registry \<times> log_record list)" where
  "SchemaRegistry_init top_level_res project_res plugins =
     bind_err (dict_getitem top_level_res ''$schema'') (\<lambda>spec_version.
     bind_err (dict_getitem top_level_res ''properties'') (\<lambda>top_properties.
     bind_err (json_getitem top_properties ''tool'') (\<lambda>tool.
     bind_err (json_setdefault tool ''properties'') (\<lambda>(tool_properties0, tool_dict).
     bind_err (ensure_compatibility [] spec_version ''pep621_project'' project_res) (\<lambda>project_table_schema.
     bind_err (dict_getitem project_table_schema ''$id'') (\<lambda>sid.
     let top_level = AList.update ''project'' (JDict [(''$ref'', sid)]) top_level_res in
     bind_err (hash_key sid) (\<lambda>k.
     bind_err (register_plugins spec_version plugins
        \<lparr>tool_properties = tool_properties0,
         schemas = [(k, (''project'', api_name @ '' - PEP621'', project_table_schema))],
         logged = []\<rparr>) (\<lambda>st.
     bind_err (dict_getitem top_level ''$id'') (\<lambda>main_id.
     let main_schema =
       AList.update ''properties''
         (JDict (AList.update ''tool''
            (JDict (AList.update ''properties'' (tool_properties st) tool_dict))
            (case top_properties of JDict d \<Rightarrow> d | _ \<Rightarrow> [])))
         top_level in
     bind_err (hash_key main_id) (\<lambda>mk.
       Inr (\<lparr>r_schemas = AList.update mk (''<$ROOT>'', api_name @ '' - PEP517/518'', main_schema) (schemas st),
             r_spec_version = spec_version,
             r_main_id = main_id\<rparr>, logged st)))))))))))"

definition registry_getitem :: "schema_registry \<Rightarrow> json \<Rightarrow> error + schema" where
  "registry_getitem self k =
     bind_err (hash_key k) (\<lambda>hk.
       case map_of (r_schemas self) hk of
         None \<Rightarrow> Inl (KeyError k)
       | Some (slot, origin, s) \<Rightarrow> Inr s)"

definition registry_main :: "schema_registry \<Rightarrow> error + schema" where
  "registry_main self = registry_getitem self (r_main_id self)"

definition registry_iter :: "schema_registry \<Rightarrow> key list" where
  "registry_iter self = map fst (r_schemas self)"

definition registry_len :: "schema_registry \<Rightarrow> nat" where
  "registry_len self = length (r_schemas self)"

section \<open>RefHandler\<close>

text \<open>
  The mapping from URI scheme to resolution function that the schema compiler is given.
  \<^verbatim>\<open>__contains__\<close> appends to \<^verbatim>\<open>_uri_schemas\<close>, so it returns the handler after the
  call with its answer. The key of a membership test is any Python value.
\<close>

record ref_handler =
  h_uri_schemas :: "string list"
  h_registry :: schema_registry

definition RefHandler_init :: "schema_registry \<Rightarrow> ref_handler" where
  "RefHandler_init registry = \<lparr>h_uri_schemas = [''http'', ''https''], h_registry = registry\<rparr>"

definition RefHandler_contains :: "json \<Rightarrow> ref_handler \<Rightarrow> bool \<times> ref_handler" where
  "RefHandler_contains k self =
     (if \<not> is_str k then (False, self)
      else case k of
        JStr s \<Rightarrow>
          (True,
           if s \<notin> set (h_uri_schemas self)
           then self\<lparr>h_uri_schemas := h_uri_schemas self @ [s]\<rparr>
           else self)
      | _ \<Rightarrow> (False, self))"

definition RefHandler_iter :: "ref_handler \<Rightarrow> string list" where
  "RefHandler_iter self = h_uri_schemas self"

definition RefHandler_len :: "ref_handler \<Rightarrow> nat" where
  "RefHandler_len self = length (h_uri_schemas self)"

definition RefHandler_getitem :: "string \<Rightarrow> ref_handler \<Rightarrow> (json \<Rightarrow> error + schema)" where
  "RefHandler_getitem k self = registry_getitem (h_registry self)"

section \<open>Validator\<close>

text \<open>
  A validation function takes a document and returns it, or raises; it may act on the
  world outside the validator (\<open>'w\<close>), which is how a call of it is observed. The
  compiled validator that \<^verbatim>\<open>fastjsonschema.compile\<close> returns is such a function; the
  compiler itself is the parameter \<open>fjs_compile\<close>, and since it is handed the handlers it
  returns them as it left them. The plugins found at the entry points
  (\<^verbatim>\<open>list_from_entry_points\<close>) are the parameter \<open>entry_points\<close>.
\<close>

type_synonym ('d, 'w) validation_fn = "'d \<Rightarrow> 'w \<Rightarrow> (error + 'd) \<times> 'w"

type_synonym ('f, 'd, 'w) compiler =
  "schema \<Rightarrow> ref_handler \<Rightarrow> (string \<times> 'f) list \<Rightarrow> (error + ('d, 'w) validation_fn) \<times> ref_handler"

datatype 'f plugins_arg = ALL_PLUGINS | Plugins "'f plugin list"

record ('f, 'd, 'w) validator =
  v_cache :: "('d, 'w) validation_fn option"
  v_schema :: "schema option"
  v_format_validators :: "(string \<times> 'f) list option"
  v_in_format_validators :: "(string \<times> 'f) list"
  v_in_extra_validations :: "('d, 'w) validation_fn list"
  v_plugins :: "'f plugin list"
  v_schema_registry :: schema_registry
  v_handlers :: ref_handler

definition Validator_init ::
  "schema \<Rightarrow> schema \<Rightarrow> 'f plugin list \<Rightarrow> 'f plugins_arg \<Rightarrow> (string \<times> 'f) list \<Rightarrow>
   ('d, 'w) validation_fn list \<Rightarrow> error + (('f, 'd, 'w) validator \<times> log_record list)" where
  "Validator_init top_level_res project_res entry_points plugins in_format_validators in_extra_validations =
     (let ps = (case plugins of ALL_PLUGINS \<Rightarrow> entry_points | Plugins xs \<Rightarrow> xs) in
      bind_err (SchemaRegistry_init top_level_res project_res ps) (\<lambda>(registry, lg).
        Inr (\<lparr>v_cache = None,
              v_schema = None,
              v_format_validators = None,
              v_in_format_validators = py_dict in_format_validators,
              v_in_extra_validations = in_extra_validations,
              v_plugins = ps,
              v_schema_registry = registry,
              v_handlers = RefHandler_init registry\<rparr>, lg)))"

definition Validator_schema :: "('f, 'd, 'w) validator \<Rightarrow> error + schema" where
  "Validator_schema self = registry_main (v_schema_registry self)"

definition Validator_extra_validations ::
  "('f, 'd, 'w) validator \<Rightarrow> ('d, 'w) validation_fn list" where
  "Validator_extra_validations self = v_in_extra_validations self"

text \<open>\<^verbatim>\<open>formats\<close> computes the merged dictionary on its first use and stores it.\<close>

definition Validator_formats ::
  "('f, 'd, 'w) validator \<Rightarrow> (string \<times> 'f) list \<times> ('f, 'd, 'w) validator" where
  "Validator_formats self =
     (case v_format_validators self of
        None \<Rightarrow>
          let formats = concat (map (\<lambda>p. the (format_validators p))
                                 (filter (\<lambda>p. format_validators p \<noteq> None) (v_plugins self)));
              formats' = v_in_format_validators self @ formats;
              d = py_dict formats'
          in (d, self\<lparr>v_format_validators := Some d\<rparr>)
      | Some d \<Rightarrow> (d, self))"

definition Validator_getitem :: "('f, 'd, 'w) validator \<Rightarrow> json \<Rightarrow> error + schema" where
  "Validator_getitem self schema_id = registry_getitem (v_schema_registry self) schema_id"

text \<open>\<^verbatim>\<open>reduce(lambda acc, fn: fn(acc), fns, pyproject)\<close>: an exception of one function
  ends the reduction.\<close>

fun reduce_validations :: "('d, 'w) validation_fn list \<Rightarrow> 'd \<Rightarrow> 'w \<Rightarrow> (error + 'd) \<times> 'w" where
  "reduce_validations [] acc w = (Inr acc, w)"
| "reduce_validations (fn # fns) acc w =
     (case fn acc w of
        (Inl e, w') \<Rightarrow> (Inl e, w')
      | (Inr acc', w') \<Rightarrow> reduce_validations fns acc' w')"

text \<open>The first part of \<^verbatim>\<open>__call__\<close>: the compiled validator, compiled on first use.\<close>

definition Validator_compiled ::
  "('f, 'd, 'w) compiler \<Rightarrow> ('f, 'd, 'w) validator \<Rightarrow>
   (error + ('d, 'w) validation_fn) \<times> ('f, 'd, 'w) validator" where
  "Validator_compiled fjs_compile self =
     (case v_cache self of
        Some c \<Rightarrow> (Inr c, self)
      | None \<Rightarrow>
          (case Validator_schema self of
             Inl e \<Rightarrow> (Inl e, self)
           | Inr s \<Rightarrow>
               let (formats, self1) = Validator_formats self;
                   (r, h) = fjs_compile s (v_handlers self1) formats;
                   self2 = self1\<lparr>v_handlers := h\<rparr>
               in (case r of
                     Inl e \<Rightarrow> (Inl e, self2)
                   | Inr c \<Rightarrow> (Inr c, self2\<lparr>v_cache := Some c\<rparr>))))"

definition Validator_call ::
  "('f, 'd, 'w) compiler \<Rightarrow> ('f, 'd, 'w) validator \<Rightarrow> 'd \<Rightarrow> 'w \<Rightarrow>
   (error + 'd) \<times> ('f, 'd, 'w) validator \<times> 'w" where
  "Validator_call fjs_compile self pyproject w =
     (case Validator_compiled fjs_compile self of
        (Inl e, self') \<Rightarrow> (Inl e, self', w)
      | (Inr c, self') \<Rightarrow>
          (case c pyproject w of
             (Inl e, w') \<Rightarrow> (Inl e, self', w')
           | (Inr checked, w') \<Rightarrow>
               (case reduce_validations (Validator_extra_validations self') pyproject w' of
                  (r, w'') \<Rightarrow> (r, self', w''))))"

section \<open>Text\<close>

text \<open>
  Text is a list of characters, each a code point below 256. \<open>replace_str old new s\<close>
  is \<^verbatim>\<open>s.replace(old, new)\<close>: every occurrence of \<open>old\<close>, found from the left and without
  overlap, is replaced; an empty \<open>old\<close> matches before every character and at the end.
  \<open>join\<close> is \<^verbatim>\<open>sep.join(xs)\<close> and \<open>split_lines\<close> is \<^verbatim>\<open>s.split("\n")\<close>.
\<close>

function replace_str :: "string \<Rightarrow> string \<Rightarrow> string \<Rightarrow> string" where
  "replace_str old new [] = (if old = [] then new else [])"
| "replace_str old new (c # cs) =
     (if old = [] then new @ c # replace_str old new cs
      else if take (length old) (c # cs) = old
      then new @ replace_str old new (drop (length old) (c # cs))
      else c # replace_str old new cs)"
  by pat_completeness auto
termination
  by (relation "measure (\<lambda>(old, new, s). length s)") (auto simp: neq_Nil_conv)

fun join :: "string \<Rightarrow> string list \<Rightarrow> string" where
  "join sep [] = []"
| "join sep [x] = x"
| "join sep (x # y # ys) = x @ sep @ join sep (y # ys)"

fun split_lines :: "string \<Rightarrow> string list" where
  "split_lines [] = [[]]"
| "split_lines (c # cs) =
     (if c = CHR 0x0A then [] # split_lines cs
      else (case split_lines cs of l # ls \<Rightarrow> (c # l) # ls | [] \<Rightarrow> [[c]]))"


section \<open>Patching the generated code\<close>

text \<open>
  The character classes of Python's \<^verbatim>\<open>re\<close> on text, for code points below 256:
  \<^verbatim>\<open>\s\<close> and \<^verbatim>\<open>\w\<close> (the alphanumeric characters and the underscore), and the letters
  of a pattern under \<^verbatim>\<open>re.I\<close>, which below 256 match their two ASCII cases only.
\<close>

definition is_space :: "char \<Rightarrow> bool" where
  "is_space c =
     (let n = (of_char c :: nat)
      in (9 \<le> n \<and> n \<le> 13) \<or> (28 \<le> n \<and> n \<le> 32) \<or> n = 133 \<or> n = 160)"

definition is_word :: "char \<Rightarrow> bool" where
  "is_word c =
     (let n = (of_char c :: nat)
      in (48 \<le> n \<and> n \<le> 57) \<or> (65 \<le> n \<and> n \<le> 90) \<or> n = 95 \<or> (97 \<le> n \<and> n \<le> 122)
         \<or> n = 170 \<or> n = 178 \<or> n = 179 \<or> n = 181 \<or> n = 185 \<or> n = 186
         \<or> (188 \<le> n \<and> n \<le> 190) \<or> (192 \<le> n \<and> n \<le> 214) \<or> (216 \<le> n \<and> n \<le> 246)
         \<or> 248 \<le> n)"

definition lower_ascii :: "char \<Rightarrow> char" where
  "lower_ascii c =
     (case map_of (zip ''ABCDEFGHIJKLMNOPQRSTUVWXYZ'' ''abcdefghijklmnopqrstuvwxyz'') c of
        None \<Rightarrow> c
      | Some l \<Rightarrow> l)"


text \<open>A lower-case literal of a pattern compiled with \<^verbatim>\<open>re.I\<close>, matched at the head of
  the text: the text after it.\<close>

definition ci_literal :: "string \<Rightarrow> string \<Rightarrow> string option" where
  "ci_literal lit s =
     (if length lit \<le> length s \<and> map lower_ascii (take (length lit) s) = lit
      then Some (drop (length lit) s) else None)"

text \<open>
  \<^verbatim>\<open>VALIDATION_FN_DEF\<close> is \<^verbatim>\<open>^([\t ])*def\s*validate(_[\w_]+)?\(data\):\<close> with
  \<^verbatim>\<open>re.M | re.I\<close>. No part of it can be matched in two ways, so a match at the start of
  a line is read off from left to right: the indentation (group 1 keeps its last
  character only, and is empty when there is none), \<^verbatim>\<open>def\<close>, white space (which may run
  over line ends), \<^verbatim>\<open>validate\<close>, the optional suffix (group 2), \<^verbatim>\<open>(data):\<close>.
  The result is group 1, group 2 and the text after the match.
\<close>

definition match_VALIDATION_FN_DEF :: "string \<Rightarrow> (string \<times> string \<times> string) option" where
  "match_VALIDATION_FN_DEF s =
     (let indent = takeWhile (\<lambda>c. c = CHR 0x09 \<or> c = CHR '' '') s;
          s1 = dropWhile (\<lambda>c. c = CHR 0x09 \<or> c = CHR '' '') s;
          g1 = (if indent = [] then [] else [last indent])
      in case ci_literal ''def'' s1 of
           None \<Rightarrow> None
         | Some s2 \<Rightarrow>
             (case ci_literal ''validate'' (dropWhile is_space s2) of
                None \<Rightarrow> None
              | Some s3 \<Rightarrow>
                  let (g2, s4) =
                    (case s3 of
                       [] \<Rightarrow> ([], s3)
                     | c # cs \<Rightarrow>
                         if c = CHR ''_'' \<and> takeWhile is_word cs \<noteq> []
                         then (c # takeWhile is_word cs, dropWhile is_word cs)
                         else ([], s3))
                  in (case ci_literal ''(data):'' s4 of
                        None \<Rightarrow> None
                      | Some rest \<Rightarrow> Some (g1, g2, rest))))"

text \<open>A match is not empty, so the scan ends.\<close>

lemma ci_literal_length: "ci_literal lit s = Some r \<Longrightarrow> length r + length lit = length s"
  by (auto simp: ci_literal_def split: if_splits)

lemma match_shorter:
  assumes "match_VALIDATION_FN_DEF s = Some (g1, g2, rest)"
  shows "length rest < length s"
proof -
  let ?s1 = "dropWhile (\<lambda>c. c = CHR 0x09 \<or> c = CHR '' '') s"
  from assms obtain s2 where s2: "ci_literal ''def'' ?s1 = Some s2"
    by (auto simp: match_VALIDATION_FN_DEF_def Let_def split: option.splits)
  from assms s2 obtain s3 where s3: "ci_literal ''validate'' (dropWhile is_space s2) = Some s3"
    by (auto simp: match_VALIDATION_FN_DEF_def Let_def split: option.splits)
  from assms s2 s3 obtain s4 where s4: "ci_literal ''(data):'' s4 = Some rest"
    and le: "length s4 \<le> length s3"
    by (auto simp: match_VALIDATION_FN_DEF_def Let_def length_dropWhile_le le_SucI
        split: option.splits list.splits if_splits prod.splits)
  have "length s2 < length ?s1" using ci_literal_length[OF s2] by simp
  moreover have "length ?s1 \<le> length s" by (rule length_dropWhile_le)
  moreover have "length s3 \<le> length (dropWhile is_space s2)"
    using ci_literal_length[OF s3] by simp
  moreover have "length (dropWhile is_space s2) \<le> length s2" by (rule length_dropWhile_le)
  moreover have "length rest \<le> length s4" using ci_literal_length[OF s4] by simp
  ultimately show ?thesis using le by linarith
qed

text \<open>
  \<^verbatim>\<open>VALIDATION_FN_DEF.sub(r"\1def validate\2(data, custom_formats):", code)\<close>: the text
  is scanned from the left, a match is tried where a line starts (\<open>bol\<close>), and the scan
  goes on after a match, which ends in a colon.
\<close>

function sub_VALIDATION_FN_DEF :: "bool \<Rightarrow> string \<Rightarrow> string" where
  "sub_VALIDATION_FN_DEF bol [] = []"
| "sub_VALIDATION_FN_DEF bol (c # cs) =
     (case (if bol then match_VALIDATION_FN_DEF (c # cs) else None) of
        Some (g1, g2, rest) \<Rightarrow>
          g1 @ ''def validate'' @ g2 @ ''(data, custom_formats):'' @ sub_VALIDATION_FN_DEF False rest
      | None \<Rightarrow> c # sub_VALIDATION_FN_DEF (c = CHR 0x0A) cs)"
  by pat_completeness auto

termination
proof (relation "measure (\<lambda>(bol, s). length s)")
  show "wf (measure (\<lambda>(bol, s). length s))" by simp
next
  fix bol c cs x g1 y g2 rest
  assume "(if bol then match_VALIDATION_FN_DEF (c # cs) else None) = Some x"
    and "(g1, y) = x" and "(g2, rest) = y"
  then have "match_VALIDATION_FN_DEF (c # cs) = Some (g1, g2, rest)"
    by (auto split: if_splits)
  then show "((False, rest), (bol, c # cs)) \<in> measure (\<lambda>(bol, s). length s)"
    using match_shorter by fastforce
next
  fix bol :: bool and c :: char and cs :: string
  show "((c = CHR 0x0A, cs), (bol, c # cs)) \<in> measure (\<lambda>(bol, s). length s)" by simp
qed

text \<open>
  \<^verbatim>\<open>PICKLED_PATTERNS_REGEX\<close> is \<^verbatim>\<open>^REGEX_PATTERNS = pickle.loads\((.*)\)$\<close> with
  \<^verbatim>\<open>re.M\<close>. The dot between \<^verbatim>\<open>pickle\<close> and \<^verbatim>\<open>loads\<close> is not escaped: it matches any
  character but a line end, as the dot of group 1 does. A match is therefore a whole line
  (a part of the text between line ends) that starts with \<^verbatim>\<open>REGEX_PATTERNS = pickle\<close>,
  goes on with any one character and \<^verbatim>\<open>loads(\<close>, and ends with a closing parenthesis;
  \<^verbatim>\<open>search\<close> returns the first such line (group 0) with the text between the
  parentheses (group 1).
\<close>

definition PICKLED_HEAD :: string where
  "PICKLED_HEAD = ''REGEX_PATTERNS = pickle''"

definition PICKLED_CALL :: string where
  "PICKLED_CALL = ''loads(''"

definition match_PICKLED_PATTERNS :: "string \<Rightarrow> (string \<times> string) option" where
  "match_PICKLED_PATTERNS l =
     (let n = length PICKLED_HEAD + 1 + length PICKLED_CALL
      in if take (length PICKLED_HEAD) l = PICKLED_HEAD
            \<and> take (length PICKLED_CALL) (drop (length PICKLED_HEAD + 1) l) = PICKLED_CALL
            \<and> n < length l \<and> last l = CHR '')''
         then Some (l, take (length l - n - 1) (drop n l)) else None)"

fun first_match :: "('a \<Rightarrow> 'b option) \<Rightarrow> 'a list \<Rightarrow> 'b option" where
  "first_match f [] = None"
| "first_match f (x # xs) = (case f x of Some y \<Rightarrow> Some y | None \<Rightarrow> first_match f xs)"

definition search_PICKLED_PATTERNS :: "string \<Rightarrow> (string \<times> string) option" where
  "search_PICKLED_PATTERNS code = first_match match_PICKLED_PATTERNS (split_lines code)"

text \<open>A compiled regular expression, as \<^verbatim>\<open>_repr_regex\<close> reads it, and the values of the
  flags of the module \<^verbatim>\<open>re\<close> that it names.\<close>

record regex =
  rx_pattern :: string
  rx_flags :: int

definition all_flags :: "string list" where
  "all_flags = [''A'', ''I'', ''DEBUG'', ''L'', ''M'', ''S'', ''X'']"

definition re_flag :: "string \<Rightarrow> int" where
  "re_flag f =
     (case map_of [(''A'', 256), (''I'', 2), (''DEBUG'', 128), (''L'', 4), (''M'', 8),
                   (''S'', 16), (''X'', 64), (''U'', 32), (''T'', 1)] f of
        None \<Rightarrow> 0
      | Some v \<Rightarrow> v)"

text \<open>\<open>py_repr\<close> is Python's \<^verbatim>\<open>repr\<close> of a string, a parameter.\<close>

definition repr_regex :: "(string \<Rightarrow> string) \<Rightarrow> regex \<Rightarrow> string" where
  "repr_regex py_repr r =
     (let flags = join '' | '' (map (\<lambda>f. ''re.'' @ f)
                                  (filter (\<lambda>f. rx_flags r AND re_flag f \<noteq> 0) all_flags));
          flags' = (if flags \<noteq> [] then '', '' @ flags else [])
      in ''re.compile('' @ py_repr (rx_pattern r) @ flags' @ '')'')"

definition NOCHECK_HEADERS :: "string list" where
  "NOCHECK_HEADERS =
     [''# noqa'',
      ''# type: ignore'',
      ''# flake8: noqa'',
      ''# pylint: skip-file'',
      ''# mypy: ignore-errors'',
      ''# yapf: disable'',
      ''# pylama:skip=1'',
      [CHR 0x0A, CHR 0x0A]
        @ ''# *** PLEASE DO NOT MODIFY DIRECTLY: Automatically generated code *** ''
        @ [CHR 0x0A, CHR 0x0A, CHR 0x0A]]"

text \<open>
  \<^verbatim>\<open>_fix_generated_code\<close>. \<open>unpickle\<close> is \<^verbatim>\<open>pickle.loads(ast.literal_eval(...)).items()\<close>,
  a parameter: the items of the pickled table, or the exception of either call.
\<close>

definition regex_table :: "(string \<Rightarrow> string) \<Rightarrow> (string \<times> regex) list \<Rightarrow> string" where
  "regex_table py_repr regexes =
     (let regexes' = map (\<lambda>(k, v). py_repr k @ '': '' @ repr_regex py_repr v) regexes;
          repr' = ''{'' @ [CHR 0x0A] @ ''    '' @ join ('','' @ [CHR 0x0A] @ ''    '') regexes'
                  @ [CHR 0x0A] @ ''}''
      in ''REGEX_PATTERNS = '' @ repr')"

definition fix_generated_code ::
  "(string \<Rightarrow> error + (string \<times> regex) list) \<Rightarrow> (string \<Rightarrow> string) \<Rightarrow> string \<Rightarrow> error + string" where
  "fix_generated_code unpickle py_repr code0 =
     (let code = sub_VALIDATION_FN_DEF True code0
      in bind_err
           (case search_PICKLED_PATTERNS code of
              None \<Rightarrow> Inr code
            | Some (group0, group1) \<Rightarrow>
                bind_err (unpickle group1) (\<lambda>regexes.
                  let subst = regex_table py_repr regexes;
                      code' = replace_str group0 subst code
                  in Inr (replace_str ''import re, pickle'' ''import re'' code')))
           (\<lambda>code''. Inr (join [CHR 0x0A] NOCHECK_HEADERS @ code'')))"

section \<open>Licences and the NOTICE file\<close>

text \<open>
  A package file, as \<^verbatim>\<open>_find_and_load_licence\<close> uses it: the name of the file (the last
  component of its path) and what \<^verbatim>\<open>read_text\<close> returns or raises. \<open>stem\<close> is
  \<^verbatim>\<open>PurePath.stem\<close>: the name without its last suffix. \<^verbatim>\<open>str.upper\<close> is the ASCII one; a
  character outside ASCII never becomes a letter of \<^verbatim>\<open>LICENSE\<close>.
\<close>

record package_path =
  pp_name :: string
  pp_text :: "error + string"




text \<open>
  The collaborators of the vendoring functions are parameters, collected in a record:
  \<^verbatim>\<open>importlib.metadata.files\<close>, the distribution's name, \<^verbatim>\<open>api.read_text\<close> (package and
  resource), \<^verbatim>\<open>str.format\<close> with keyword arguments, and \<^verbatim>\<open>Path.mkdir\<close>,
  \<^verbatim>\<open>Path.write_text\<close> and \<^verbatim>\<open>Path.touch\<close>, which act on a file system \<open>'fs\<close>.
\<close>

record 'fs os =
  os_files :: "string \<Rightarrow> error + package_path list option"
  os_dist_name :: string
  os_read_text :: "string \<Rightarrow> string \<Rightarrow> error + string"
  os_format :: "string \<Rightarrow> (string \<times> string) list \<Rightarrow> error + string"
  os_mkdir :: "string \<Rightarrow> 'fs \<Rightarrow> (error + unit) \<times> 'fs"
  os_write_text :: "string \<Rightarrow> string \<Rightarrow> 'fs \<Rightarrow> (error + unit) \<times> 'fs"
  os_touch :: "string \<Rightarrow> 'fs \<Rightarrow> (error + unit) \<times> 'fs"





section \<open>The vendoring pipeline\<close>









section \<open>Notions used in the statements\<close>

text \<open>
  The key under which a schema is registered (none when it has no \<^verbatim>\<open>$id\<close> or the id
  is unhashable); a schema's declared spec version matches the registry's when it declares
  none (or a false value) or the same; a schema is compatible when both hold. The
  top-level schema is well formed when it has a \<^verbatim>\<open>$schema\<close>, a hashable \<^verbatim>\<open>$id\<close>, and
  dictionaries under \<^verbatim>\<open>properties\<close>, \<^verbatim>\<open>properties.tool\<close> and, when present,
  \<^verbatim>\<open>properties.tool.properties\<close>. \<open>tool_ref\<close> is the reference that mounts a plugin,
  \<open>plugin_entry\<close> its entry in the registry, \<open>mounted_tools\<close> the tool properties
  after a list of plugins, \<open>json_path\<close> the value at a path of keys.
\<close>


definition schema_key :: "schema \<Rightarrow> key option" where
  "schema_key s =
     (case map_of s ''$id'' of
        None \<Rightarrow> None
      | Some sid \<Rightarrow> (case hash_key sid of Inl e \<Rightarrow> None | Inr k \<Rightarrow> Some k))"

definition version_matches :: "json \<Rightarrow> schema \<Rightarrow> bool" where
  "version_matches spec_version s =
     (let version = dict_get s ''$schema'' in truthy version \<longrightarrow> py_eq version spec_version)"

definition compatible :: "json \<Rightarrow> schema \<Rightarrow> bool" where
  "compatible spec_version s = (schema_key s \<noteq> None \<and> version_matches spec_version s)"

definition tool_ref :: "'f plugin \<Rightarrow> json" where
  "tool_ref p = JDict [(''$ref'', dict_get (tool_schema p) ''$id'')]"

definition plugin_entry :: "'f plugin \<Rightarrow> key \<times> entry" where
  "plugin_entry p =
     (the (schema_key (tool_schema p)), (''tool.'' @ tool_name p, plugin_id p, tool_schema p))"

definition top_level_tool_properties :: "schema \<Rightarrow> schema option" where
  "top_level_tool_properties top_level =
     (case map_of top_level ''properties'' of
        Some (JDict props) \<Rightarrow>
          (case map_of props ''tool'' of
             Some (JDict tool) \<Rightarrow>
               (case map_of tool ''properties'' of
                  None \<Rightarrow> Some []
                | Some (JDict tp) \<Rightarrow> Some tp
                | Some v \<Rightarrow> None)
           | _ \<Rightarrow> None)
      | _ \<Rightarrow> None)"

definition top_level_ok :: "schema \<Rightarrow> bool" where
  "top_level_ok top_level =
     (dict_in ''$schema'' top_level \<and> top_level_tool_properties top_level \<noteq> None \<and> schema_key top_level \<noteq> None)"

fun json_path :: "json \<Rightarrow> string list \<Rightarrow> json option" where
  "json_path v [] = Some v"
| "json_path (JDict d) (k # ks) = (case map_of d k of None \<Rightarrow> None | Some v \<Rightarrow> json_path v ks)"
| "json_path v (k # ks) = None"

definition mounted_tools :: "schema \<Rightarrow> 'f plugin list \<Rightarrow> schema" where
  "mounted_tools tp ps = foldl (\<lambda>d p. AList.update (tool_name p) (tool_ref p) d) tp ps"

text \<open>
  The merge of the format functions in the words of the specification: the caller's
  mapping is inserted first, then the \<^verbatim>\<open>format_validators\<close> of each plugin that declares
  them, in the order of the plugins (\<open>dict_update_all\<close> is \<^verbatim>\<open>d.update(m)\<close>). A sequence of
  pairs gives a key the value of its last pair with that key (\<open>pairs_lookup\<close>), and
  \<open>declared_formats\<close> is what a plugin declares.
\<close>

definition dict_update_all :: "(string \<times> 'v) list \<Rightarrow> (string \<times> 'v) list \<Rightarrow> (string \<times> 'v) list" where
  "dict_update_all d m = foldl (\<lambda>d (k, v). AList.update k v d) d m"

definition formats_spec :: "(string \<times> 'f) list \<Rightarrow> 'f plugin list \<Rightarrow> (string \<times> 'f) list" where
  "formats_spec caller ps =
     foldl (\<lambda>d p. case format_validators p of None \<Rightarrow> d | Some m \<Rightarrow> dict_update_all d m)
       (dict_update_all [] caller) ps"

definition pairs_lookup :: "(string \<times> 'v) list \<Rightarrow> string \<Rightarrow> 'v option" where
  "pairs_lookup m = map_of (rev m)"

definition declared_formats :: "'f plugin \<Rightarrow> string \<Rightarrow> 'f option" where
  "declared_formats p =
     (case format_validators p of None \<Rightarrow> Map.empty | Some m \<Rightarrow> pairs_lookup m)"

text \<open>The flags of a compiled regular expression among the seven that \<^verbatim>\<open>_repr_regex\<close>
  names (\<^verbatim>\<open>re.U\<close>, which every pattern on text has set, and \<^verbatim>\<open>re.T\<close> are not among them).\<close>

definition named_flags :: "regex \<Rightarrow> string list" where
  "named_flags r = filter (\<lambda>f. rx_flags r AND re_flag f \<noteq> 0) all_flags"

text \<open>The assignment of the pickled table, as the generated code writes it, and the value
  of an expression \<^verbatim>\<open>re.F | re.G | ...\<close> from the names of its flags.\<close>

definition pickled_assignment :: "string \<Rightarrow> string" where
  "pickled_assignment payload = ''REGEX_PATTERNS = pickle.loads('' @ payload @ '')''"

definition flags_value :: "string list \<Rightarrow> int" where
  "flags_value names = foldr (\<lambda>f v. re_flag f OR v) names 0"

text \<open>A text that ends with a line end.\<close>

definition ends_newline :: "string \<Rightarrow> bool" where
  "ends_newline s = (s \<noteq> [] \<and> last s = CHR 0x0A)"

text \<open>Concrete inputs.\<close>

definition ex_top_level :: schema where
  "ex_top_level =
     [(''$schema'', JStr ''http://json-schema.org/draft-07/schema''),
      (''$id'', JStr ''https://example.org/pyproject_toml''),
      (''type'', JStr ''object''),
      (''properties'',
         JDict [(''build-system'', JDict [(''type'', JStr ''object'')]),
                (''tool'', JDict [(''type'', JStr ''object'')])])]"

definition ex_project :: schema where
  "ex_project =
     [(''$schema'', JStr ''http://json-schema.org/draft-07/schema''),
      (''$id'', JStr ''https://example.org/pep621_project''),
      (''type'', JStr ''object'')]"

definition ex_plugin :: "string \<Rightarrow> string \<Rightarrow> schema \<Rightarrow> unit plugin" where
  "ex_plugin cls tool s =
     \<lparr>plugin_module = ''example.plugins'', plugin_qualname = cls, tool_name = tool,
      tool_schema = s, format_validators = None\<rparr>"


definition ex_registry :: schema_registry where
  "ex_registry =
     \<lparr>r_schemas = [(KStr ''https://example.org/a'',
                    (''tool.a'', ''example.plugins.A'', [(''$id'', JStr ''https://example.org/a'')])),
                  (KStr ''https://example.org/pyproject_toml'',
                    (''<$ROOT>'', ''validate_pyproject.api - PEP517/518'', ex_top_level))],
      r_spec_version = JStr ''http://json-schema.org/draft-07/schema'',
      r_main_id = JStr ''https://example.org/pyproject_toml''\<rparr>"

definition ex_compile :: "(nat, json, string list) compiler" where
  "ex_compile s h formats = (Inr (\<lambda>d w. (Inr d, w @ [''schema''])), h)"

definition ex_validator ::
  "(json, string list) validation_fn list \<Rightarrow> (nat, json, string list) validator" where
  "ex_validator fns =
     \<lparr>v_cache = None, v_schema = None, v_format_validators = None,
      v_in_format_validators = [], v_in_extra_validations = fns, v_plugins = [],
      v_schema_registry = ex_registry, v_handlers = RefHandler_init ex_registry\<rparr>"

definition ex_wrap :: "(json, string list) validation_fn" where
  "ex_wrap d w = (Inr (JList [d]), w @ [''wrap''])"

definition ex_pair :: "(json, string list) validation_fn" where
  "ex_pair d w = (Inr (JList [d, d]), w @ [''pair''])"

definition ex_reject :: "(json, string list) validation_fn" where
  "ex_reject d w = (Inl (Raised ''rejected''), w @ [''reject''])"

definition ex_formats_plugins :: "nat plugin list" where
  "ex_formats_plugins =
     [\<lparr>plugin_module = ''example.plugins'', plugin_qualname = ''A'', tool_name = ''a'',
       tool_schema = [(''$id'', JStr ''https://example.org/a'')],
       format_validators = Some [(''f'', 10)]\<rparr>,
      \<lparr>plugin_module = ''example.plugins'', plugin_qualname = ''B'', tool_name = ''b'',
       tool_schema = [(''$id'', JStr ''https://example.org/b'')],
       format_validators = None\<rparr>,
      \<lparr>plugin_module = ''example.plugins'', plugin_qualname = ''C'', tool_name = ''c'',
       tool_schema = [(''$id'', JStr ''https://example.org/c'')],
       format_validators = Some [(''f'', 30), (''h'', 31)]\<rparr>]"

definition ex_repr :: "string \<Rightarrow> string" where
  "ex_repr s = [CHR 0x27] @ s @ [CHR 0x27]"

definition ex_unpickle :: "string \<Rightarrow> error + (string \<times> regex) list" where
  "ex_unpickle payload = Inr [(''^a+$'', \<lparr>rx_pattern = ''^a+$'', rx_flags = 42\<rparr>)]"

definition ex_code :: string where
  "ex_code = ''import re, pickle\<newline>REGEX_PATTERNS = pickle.loads(b'x')\<newline>def validate(data):\<newline>    return data''"




section \<open>The registry: construction\<close>

lemma update_fresh: "map_of al k = None \<Longrightarrow> AList.update k v al = al @ [(k, v)]"
  by (induction al) (auto split: if_splits)

lemma ensure_compatibility_ok:
  assumes "compatible sv s" and "schema_key s = Some k" and "map_of sch k = None"
  shows "ensure_compatibility sch sv r s = Inr s"
  using assms
  by (auto simp: ensure_compatibility_def compatible_def schema_key_def version_matches_def
      dict_in_def dict_getitem_def Let_def split: option.splits sum.splits)

lemma ensure_compatibility_dup:
  assumes "compatible sv s" and "schema_key s = Some k" and "map_of sch k \<noteq> None"
  shows "ensure_compatibility sch sv r s = Inl (SchemaWithDuplicatedId (dict_get s ''$id''))"
  using assms
  by (auto simp: ensure_compatibility_def compatible_def schema_key_def version_matches_def
      dict_in_def dict_getitem_def dict_get_def Let_def split: option.splits sum.splits)

lemma register_plugin_ok:
  assumes "compatible sv (tool_schema p)" and "map_of sch (fst (plugin_entry p)) = None"
  shows "\<exists>l. register_plugin sv p \<lparr>tool_properties = JDict tp, schemas = sch, logged = lg\<rparr>
    = Inr \<lparr>tool_properties = JDict (AList.update (tool_name p) (tool_ref p) tp),
           schemas = sch @ [plugin_entry p],
           logged = lg @ [l]\<rparr>"
proof -
  from assms(1) obtain k where k: "schema_key (tool_schema p) = Some k"
    by (auto simp: compatible_def)
  with assms(2) have fresh: "map_of sch k = None" by (simp add: plugin_entry_def)
  from k obtain sid where sid: "map_of (tool_schema p) ''$id'' = Some sid" "hash_key sid = Inr k"
    by (auto simp: schema_key_def split: option.splits sum.splits)
  show ?thesis
    using ensure_compatibility_ok[OF assms(1) k fresh] sid k fresh
    by (simp add: register_plugin_def Let_def dict_getitem_def dict_get_def tool_ref_def
        plugin_entry_def update_fresh)
qed

lemma register_plugins_ok:
  assumes "list_all (\<lambda>p. compatible sv (tool_schema p)) ps"
    and "distinct (map fst sch @ map (fst \<circ> plugin_entry) ps)"
  shows "\<exists>ls. register_plugins sv ps \<lparr>tool_properties = JDict tp, schemas = sch, logged = lg\<rparr>
    = Inr \<lparr>tool_properties = JDict (mounted_tools tp ps),
           schemas = sch @ map plugin_entry ps,
           logged = lg @ ls\<rparr> \<and> length ls = length ps"
  using assms
proof (induction ps arbitrary: tp sch lg)
  case Nil
  then show ?case by (simp add: mounted_tools_def)
next
  case (Cons p ps)
  from Cons.prems have c: "compatible sv (tool_schema p)" by simp
  from Cons.prems have "fst (plugin_entry p) \<notin> fst ` set sch" by auto
  then have fresh: "map_of sch (fst (plugin_entry p)) = None"
    by (simp add: map_of_eq_None_iff)
  from register_plugin_ok[OF c fresh] obtain l where
    step: "register_plugin sv p \<lparr>tool_properties = JDict tp, schemas = sch, logged = lg\<rparr>
      = Inr \<lparr>tool_properties = JDict (AList.update (tool_name p) (tool_ref p) tp),
             schemas = sch @ [plugin_entry p], logged = lg @ [l]\<rparr>" by blast
  from Cons.prems have rest: "list_all (\<lambda>p. compatible sv (tool_schema p)) ps"
    and d: "distinct (map fst (sch @ [plugin_entry p]) @ map (fst \<circ> plugin_entry) ps)"
    by (auto simp: comp_def)
  from Cons.IH[OF rest d] obtain ls where
    "register_plugins sv ps \<lparr>tool_properties = JDict (AList.update (tool_name p) (tool_ref p) tp),
        schemas = sch @ [plugin_entry p], logged = lg @ [l]\<rparr>
      = Inr \<lparr>tool_properties = JDict (mounted_tools (AList.update (tool_name p) (tool_ref p) tp) ps),
             schemas = (sch @ [plugin_entry p]) @ map plugin_entry ps,
             logged = (lg @ [l]) @ ls\<rparr>" and "length ls = length ps"
    by blast
  then show ?case using step by (intro exI[of _ "l # ls"]) (simp add: mounted_tools_def)
qed

lemma top_level_okD:
  assumes "top_level_ok top_level"
  obtains sv props tool tp tool_dict rid rk where
    "map_of top_level ''$schema'' = Some sv" and "map_of top_level ''properties'' = Some (JDict props)"
    and "map_of props ''tool'' = Some (JDict tool)"
    and "json_setdefault (JDict tool) ''properties'' = Inr (JDict tp, tool_dict)"
    and "top_level_tool_properties top_level = Some tp"
    and "map_of top_level ''$id'' = Some rid" and "hash_key rid = Inr rk" and "schema_key top_level = Some rk"
proof -
  from assms obtain sv where 1: "map_of top_level ''$schema'' = Some sv"
    by (auto simp: top_level_ok_def dict_in_def)
  from assms obtain tp where tp: "top_level_tool_properties top_level = Some tp"
    by (auto simp: top_level_ok_def)
  from tp obtain props where 2: "map_of top_level ''properties'' = Some (JDict props)"
    by (auto simp: top_level_tool_properties_def split: option.splits json.splits)
  from tp 2 obtain tool where 3: "map_of props ''tool'' = Some (JDict tool)"
    by (auto simp: top_level_tool_properties_def split: option.splits json.splits)
  from tp 2 3 obtain tool_dict where
    4: "json_setdefault (JDict tool) ''properties'' = Inr (JDict tp, tool_dict)"
    by (auto simp: top_level_tool_properties_def split: option.splits json.splits)
  from assms obtain rk where 5: "schema_key top_level = Some rk"
    by (auto simp: top_level_ok_def)
  then obtain rid where 6: "map_of top_level ''$id'' = Some rid" "hash_key rid = Inr rk"
    by (auto simp: schema_key_def split: option.splits sum.splits)
  show ?thesis using that 1 2 3 4 tp 5 6 by blast
qed

lemma json_setdefault_dict:
  assumes "json_setdefault (JDict tool) k = Inr (v, tool_dict)"
  shows "map_of (AList.update k x tool_dict) k = Some x"
  by (simp add: update_conv')

lemma SchemaRegistry_init_ok:
  assumes top: "top_level_ok top_level"
    and proj: "compatible (dict_get top_level ''$schema'') project"
    and plug: "list_all (\<lambda>p. compatible (dict_get top_level ''$schema'') (tool_schema p)) ps"
    and dist: "distinct (the (schema_key project) # map (fst \<circ> plugin_entry) ps)"
  shows "\<exists>main lg. SchemaRegistry_init top_level project ps =
      Inr (\<lparr>r_schemas =
              AList.update (the (schema_key top_level)) (''<$ROOT>'', api_name @ '' - PEP517/518'', main)
                ((the (schema_key project), (''project'', api_name @ '' - PEP621'', project))
                 # map plugin_entry ps),
            r_spec_version = dict_get top_level ''$schema'',
            r_main_id = dict_get top_level ''$id''\<rparr>, lg)
    \<and> json_path (JDict main) [''properties'', ''tool'', ''properties'']
        = Some (JDict (mounted_tools (the (top_level_tool_properties top_level)) ps))"
proof -
  from top obtain sv props tool tp tool_dict rid rk where t:
    "map_of top_level ''$schema'' = Some sv" "map_of top_level ''properties'' = Some (JDict props)"
    "map_of props ''tool'' = Some (JDict tool)"
    "json_setdefault (JDict tool) ''properties'' = Inr (JDict tp, tool_dict)"
    "top_level_tool_properties top_level = Some tp"
    "map_of top_level ''$id'' = Some rid" "hash_key rid = Inr rk" "schema_key top_level = Some rk"
    by (rule top_level_okD)
  have sv: "dict_get top_level ''$schema'' = sv" using t(1) by (simp add: dict_get_def)
  from proj obtain pk where pk: "schema_key project = Some pk" by (auto simp: compatible_def)
  then obtain sid where sid: "map_of project ''$id'' = Some sid" "hash_key sid = Inr pk"
    by (auto simp: schema_key_def split: option.splits sum.splits)
  have ec: "ensure_compatibility [] sv ''pep621_project'' project = Inr project"
    using ensure_compatibility_ok[OF proj pk, of "[]"] sv by simp
  let ?e = "(pk, (''project'', api_name @ '' - PEP621'', project))"
  have d: "distinct (map fst [?e] @ map (fst \<circ> plugin_entry) ps)"
    using dist pk by simp
  from register_plugins_ok[OF plug d, of tp "[]"] sv obtain ls where
    loop: "register_plugins sv ps \<lparr>tool_properties = JDict tp, schemas = [?e], logged = []\<rparr>
      = Inr \<lparr>tool_properties = JDict (mounted_tools tp ps),
             schemas = [?e] @ map plugin_entry ps, logged = [] @ ls\<rparr>"
    by auto
  have id: "dict_getitem (AList.update ''project'' (JDict [(''$ref'', sid)]) top_level) ''$id'' = Inr rid"
    using t(6) by (simp add: dict_getitem_def update_conv')
  let ?main = "AList.update ''properties''
      (JDict (AList.update ''tool''
         (JDict (AList.update ''properties'' (JDict (mounted_tools tp ps)) tool_dict)) props))
      (AList.update ''project'' (JDict [(''$ref'', sid)]) top_level)"
  have init: "SchemaRegistry_init top_level project ps =
      Inr (\<lparr>r_schemas =
              AList.update rk (''<$ROOT>'', api_name @ '' - PEP517/518'', ?main)
                (?e # map plugin_entry ps),
            r_spec_version = sv, r_main_id = rid\<rparr>, ls)"
    unfolding SchemaRegistry_init_def
    using t sv pk sid ec loop id
    by (simp add: dict_getitem_def dict_get_def Let_def del: json_setdefault.simps AList.update.simps)
  have path: "json_path (JDict ?main) [''properties'', ''tool'', ''properties'']
      = Some (JDict (mounted_tools tp ps))"
    by (simp add: update_conv')
  have rid: "dict_get top_level ''$id'' = rid" using t(6) by (simp add: dict_get_def)
  show ?thesis using init path sv rid t(5) t(8) pk by auto
qed


lemma distinct_map_the:
  assumes "\<forall>x \<in> set xs. x \<noteq> None" and "distinct xs"
  shows "distinct (map the xs)"
  using assms
proof (induction xs)
  case Nil
  then show ?case by simp
next
  case (Cons x xs)
  have "the x \<notin> the ` set xs"
  proof
    assume "the x \<in> the ` set xs"
    then obtain y where y: "y \<in> set xs" "the y = the x" by auto
    from Cons.prems(1) y(1) obtain a b where "x = Some a" "y = Some b" by auto
    with y(2) have "x = y" by simp
    with y(1) Cons.prems(2) show False by simp
  qed
  with Cons show ?case by simp
qed

lemma compatible_keys:
  assumes "top_level_ok top_level"
    and "compatible sv project"
    and "list_all (\<lambda>p. compatible sv (tool_schema p)) ps"
    and "distinct (schema_key top_level # schema_key project
                   # map (\<lambda>p. schema_key (tool_schema p)) ps)"
  shows "distinct (the (schema_key top_level) # the (schema_key project)
                   # map (fst \<circ> plugin_entry) ps)"
proof -
  let ?xs = "schema_key top_level # schema_key project # map (\<lambda>p. schema_key (tool_schema p)) ps"
  have "\<forall>x \<in> set ?xs. x \<noteq> None"
    using assms(1-3) by (auto simp: top_level_ok_def compatible_def list_all_iff)
  from distinct_map_the[OF this assms(4)]
  show ?thesis by (simp add: comp_def plugin_entry_def)
qed

lemma map_of_plugin_entry:
  assumes "distinct (map (fst \<circ> plugin_entry) ps)" and "p \<in> set ps"
  shows "map_of (map plugin_entry ps) (fst (plugin_entry p)) = Some (snd (plugin_entry p))"
proof -
  have "distinct (map fst (map plugin_entry ps))" using assms(1) by simp
  moreover have "(fst (plugin_entry p), snd (plugin_entry p)) \<in> set (map plugin_entry ps)"
    using assms(2) by auto
  ultimately show ?thesis by (rule map_of_is_SomeI)
qed

lemma mounted_tools_other:
  "\<forall>q \<in> set ps. tool_name q \<noteq> x \<Longrightarrow> map_of (mounted_tools tp ps) x = map_of tp x"
  unfolding mounted_tools_def
  by (induction ps arbitrary: tp) (auto simp: update_conv')

lemma mounted_tools_last:
  assumes "\<forall>q \<in> set after. tool_name q \<noteq> tool_name p"
  shows "map_of (mounted_tools tp (before @ p # after)) (tool_name p) = Some (tool_ref p)"
proof -
  have "mounted_tools tp (before @ p # after)
      = mounted_tools (AList.update (tool_name p) (tool_ref p) (mounted_tools tp before)) after"
    by (simp add: mounted_tools_def)
  then show ?thesis using mounted_tools_other[OF assms] by (simp add: update_conv')
qed

lemma json_path_append:
  "json_path v (ks @ ks') = (case json_path v ks of None \<Rightarrow> None | Some u \<Rightarrow> json_path u ks')"
  by (induction v ks rule: json_path.induct) (auto split: option.splits)

text \<open>
  C1. For every sequence of plugins whose tool schemas have an \<^verbatim>\<open>$id\<close> each, pairwise
  distinct and distinct from the ids of the project-table and the top-level schema, and
  whose declared spec versions match the registry's, the construction of the registry
  succeeds and the registry has 1 (project table) + number of plugins + 1 (root) entries.
  The two core schemas are resources of the package: the top-level one is well formed,
  the project-table one compatible.
\<close>

theorem SchemaRegistry_len:
  assumes "top_level_ok top_level"
    and "compatible (dict_get top_level ''$schema'') project"
    and "list_all (\<lambda>p. compatible (dict_get top_level ''$schema'') (tool_schema p)) plugins"
    and "distinct (schema_key top_level # schema_key project
                   # map (\<lambda>p. schema_key (tool_schema p)) plugins)"
  shows "\<exists>registry lg. SchemaRegistry_init top_level project plugins = Inr (registry, lg)
           \<and> registry_len registry = 1 + length plugins + 1"
proof -
  have keys: "distinct (the (schema_key top_level) # the (schema_key project)
                        # map (fst \<circ> plugin_entry) plugins)"
    using assms by (rule compatible_keys)
  then have d: "distinct (the (schema_key project) # map (fst \<circ> plugin_entry) plugins)"
    by simp
  let ?e = "(the (schema_key project), (''project'', api_name @ '' - PEP621'', project))"
  from SchemaRegistry_init_ok[OF assms(1-3) d] obtain main lg where
    init: "SchemaRegistry_init top_level project plugins =
      Inr (\<lparr>r_schemas =
              AList.update (the (schema_key top_level)) (''<$ROOT>'', api_name @ '' - PEP517/518'', main)
                (?e # map plugin_entry plugins),
            r_spec_version = dict_get top_level ''$schema'',
            r_main_id = dict_get top_level ''$id''\<rparr>, lg)"
    by blast
  have "the (schema_key top_level) \<notin> fst ` set (?e # map plugin_entry plugins)"
    using keys by (auto simp: image_iff)
  then have "map_of (?e # map plugin_entry plugins) (the (schema_key top_level)) = None"
    unfolding map_of_eq_None_iff .
  then have "length (AList.update (the (schema_key top_level))
                 (''<$ROOT>'', api_name @ '' - PEP517/518'', main) (?e # map plugin_entry plugins))
             = 1 + length plugins + 1"
    by (simp only: update_fresh) simp
  then show ?thesis using init by (simp add: registry_len_def)
qed


theorem SchemaRegistry_len_witness:
  "top_level_ok ex_top_level
   \<and> compatible (dict_get ex_top_level ''$schema'') ex_project
   \<and> list_all (\<lambda>p. compatible (dict_get ex_top_level ''$schema'') (tool_schema p))
        [ex_plugin ''A'' ''a'' [(''$id'', JStr ''https://example.org/a'')],
         ex_plugin ''B'' ''b'' [(''$id'', JStr ''https://example.org/b''),
                                 (''$schema'', JStr ''http://json-schema.org/draft-07/schema'')]]
   \<and> (\<exists>registry lg.
         SchemaRegistry_init ex_top_level ex_project
           [ex_plugin ''A'' ''a'' [(''$id'', JStr ''https://example.org/a'')],
            ex_plugin ''B'' ''b'' [(''$id'', JStr ''https://example.org/b''),
                                    (''$schema'', JStr ''http://json-schema.org/draft-07/schema'')]]
           = Inr (registry, lg)
         \<and> registry_len registry = 4)"
proof -
  let ?ps = "[ex_plugin ''A'' ''a'' [(''$id'', JStr ''https://example.org/a'')],
              ex_plugin ''B'' ''b'' [(''$id'', JStr ''https://example.org/b''),
                                      (''$schema'', JStr ''http://json-schema.org/draft-07/schema'')]]"
  have h1: "top_level_ok ex_top_level"
    by (simp add: top_level_ok_def ex_top_level_def dict_in_def top_level_tool_properties_def
        schema_key_def)
  have h2: "compatible (dict_get ex_top_level ''$schema'') ex_project"
    by (simp add: compatible_def version_matches_def ex_top_level_def ex_project_def dict_get_def
        schema_key_def)
  have h3: "list_all (\<lambda>p. compatible (dict_get ex_top_level ''$schema'') (tool_schema p)) ?ps"
    by (simp add: compatible_def version_matches_def ex_top_level_def ex_plugin_def dict_get_def
        schema_key_def)
  have h4: "distinct (schema_key ex_top_level # schema_key ex_project
                      # map (\<lambda>p. schema_key (tool_schema p)) ?ps)"
    by (simp add: ex_top_level_def ex_project_def ex_plugin_def schema_key_def)
  from SchemaRegistry_len[OF h1 h2 h3 h4] h1 h2 h3 show ?thesis by (simp add: eval_nat_numeral)
qed

section \<open>The registry: duplicate ids, missing ids, tool-name collisions\<close>



lemma register_plugins_dup:
  assumes "list_all (\<lambda>p. compatible sv (tool_schema p)) ps"
    and "distinct (map fst sch)"
    and "\<not> distinct (map fst sch @ map (fst \<circ> plugin_entry) ps)"
  shows "\<exists>p \<in> set ps. register_plugins sv ps \<lparr>tool_properties = JDict tp, schemas = sch, logged = lg\<rparr>
    = Inl (SchemaWithDuplicatedId (dict_get (tool_schema p) ''$id''))"
  using assms
proof (induction ps arbitrary: tp sch lg)
  case Nil
  then show ?case by simp
next
  case (Cons p ps)
  from Cons.prems(1) have c: "compatible sv (tool_schema p)"
    and rest: "list_all (\<lambda>p. compatible sv (tool_schema p)) ps" by simp_all
  from c obtain k where k: "schema_key (tool_schema p) = Some k"
    by (auto simp: compatible_def)
  then have fk: "fst (plugin_entry p) = k" by (simp add: plugin_entry_def)
  show ?case
  proof (cases "map_of sch k = None")
    case False
    from ensure_compatibility_dup[OF c k False]
    have "register_plugin sv p \<lparr>tool_properties = JDict tp, schemas = sch, logged = lg\<rparr>
        = Inl (SchemaWithDuplicatedId (dict_get (tool_schema p) ''$id''))"
      by (simp add: register_plugin_def Let_def)
    then show ?thesis by simp
  next
    case True
    with fk have fresh: "map_of sch (fst (plugin_entry p)) = None" by simp
    from register_plugin_ok[OF c fresh] obtain l where
      step: "register_plugin sv p \<lparr>tool_properties = JDict tp, schemas = sch, logged = lg\<rparr>
        = Inr \<lparr>tool_properties = JDict (AList.update (tool_name p) (tool_ref p) tp),
               schemas = sch @ [plugin_entry p], logged = lg @ [l]\<rparr>" by blast
    from True have "k \<notin> fst ` set sch" by (simp add: map_of_eq_None_iff)
    with Cons.prems(2) fk have d: "distinct (map fst (sch @ [plugin_entry p]))" by simp
    from Cons.prems(3) have nd:
      "\<not> distinct (map fst (sch @ [plugin_entry p]) @ map (fst \<circ> plugin_entry) ps)"
      by (simp add: comp_def)
    from Cons.IH[OF rest d nd, of "AList.update (tool_name p) (tool_ref p) tp" "lg @ [l]"] step
    show ?thesis by auto
  qed
qed

lemma distinct_map_the_iff:
  assumes "\<forall>x \<in> set xs. x \<noteq> None"
  shows "distinct (map the xs) = distinct xs"
proof
  assume "distinct (map the xs)"
  then show "distinct xs" by (simp add: distinct_map)
next
  assume "distinct xs"
  with assms show "distinct (map the xs)" by (rule distinct_map_the)
qed

text \<open>
  C3. For every fragment that lacks a top-level \<^verbatim>\<open>$id\<close>, the compatibility check raises
  \<^verbatim>\<open>SchemaMissingId\<close>, whatever the registry holds and whatever spec version the fragment
  and the registry declare: the check for the id runs before the check of the version and
  before the check for a duplicate, so such a fragment never fails with
  \<^verbatim>\<open>InvalidSchemaVersion\<close>.
\<close>

theorem ensure_compatibility_missing_id:
  assumes "\<not> dict_in ''$id'' schema"
  shows "ensure_compatibility registered spec_version reference schema = Inl (SchemaMissingId reference)"
  using assms by (simp add: ensure_compatibility_def)

theorem ensure_compatibility_missing_id_witness:
  "\<not> dict_in ''$id'' [(''$schema'', JStr ''http://json-schema.org/draft-04/schema'')]
   \<and> ensure_compatibility [(KStr ''x'', (''project'', ''core'', []))]
         (JStr ''http://json-schema.org/draft-07/schema'') ''tool-x''
         [(''$schema'', JStr ''http://json-schema.org/draft-04/schema'')]
       = Inl (SchemaMissingId ''tool-x'')"
proof -
  have h: "\<not> dict_in ''$id'' [(''$schema'', JStr ''http://json-schema.org/draft-04/schema'')]"
    by (simp add: dict_in_def)
  from ensure_compatibility_missing_id[OF h] h show ?thesis by simp
qed

text \<open>
  C2, as the code has it. The fragments checked during construction are the project-table
  schema and the plugins' tool schemas, in this order. When every one of them has a hashable
  \<^verbatim>\<open>$id\<close> and a spec version that matches the registry's, and two of them carry the same
  \<^verbatim>\<open>$id\<close>, construction raises \<^verbatim>\<open>SchemaWithDuplicatedId\<close> for the id of one of the
  plugins, in whatever order the two are registered.
\<close>

theorem duplicate_id_raises:
  assumes "top_level_ok top_level"
    and "compatible (dict_get top_level ''$schema'') project"
    and "list_all (\<lambda>p. compatible (dict_get top_level ''$schema'') (tool_schema p)) plugins"
    and "\<not> distinct (schema_key project # map (\<lambda>p. schema_key (tool_schema p)) plugins)"
  shows "\<exists>p \<in> set plugins. SchemaRegistry_init top_level project plugins
           = Inl (SchemaWithDuplicatedId (dict_get (tool_schema p) ''$id''))"
proof -
  from assms(1) obtain sv props tool tp tool_dict rid rk where t:
    "map_of top_level ''$schema'' = Some sv" "map_of top_level ''properties'' = Some (JDict props)"
    "map_of props ''tool'' = Some (JDict tool)"
    "json_setdefault (JDict tool) ''properties'' = Inr (JDict tp, tool_dict)"
    "top_level_tool_properties top_level = Some tp"
    "map_of top_level ''$id'' = Some rid" "hash_key rid = Inr rk" "schema_key top_level = Some rk"
    by (rule top_level_okD)
  have sv: "dict_get top_level ''$schema'' = sv" using t(1) by (simp add: dict_get_def)
  from assms(2) obtain pk where pk: "schema_key project = Some pk" by (auto simp: compatible_def)
  then obtain sid where sid: "map_of project ''$id'' = Some sid" "hash_key sid = Inr pk"
    by (auto simp: schema_key_def split: option.splits sum.splits)
  have ec: "ensure_compatibility [] sv ''pep621_project'' project = Inr project"
    using ensure_compatibility_ok[OF assms(2) pk, of "[]"] sv by simp
  let ?e = "(pk, (''project'', api_name @ '' - PEP621'', project))"
  let ?xs = "schema_key project # map (\<lambda>p. schema_key (tool_schema p)) plugins"
  have "\<forall>x \<in> set ?xs. x \<noteq> None"
    using assms(2,3) by (auto simp: compatible_def list_all_iff)
  from distinct_map_the_iff[OF this] assms(4)
  have "\<not> distinct (map the ?xs)" by simp
  then have nd: "\<not> distinct (map fst [?e] @ map (fst \<circ> plugin_entry) plugins)"
    using pk by (simp add: comp_def plugin_entry_def)
  have d: "distinct (map fst [?e])" by simp
  from register_plugins_dup[OF assms(3)[unfolded sv] d nd, of tp "[]"] obtain p where
    p: "p \<in> set plugins"
    and loop: "register_plugins sv plugins \<lparr>tool_properties = JDict tp, schemas = [?e], logged = []\<rparr>
      = Inl (SchemaWithDuplicatedId (dict_get (tool_schema p) ''$id''))"
    by blast
  have "SchemaRegistry_init top_level project plugins
      = Inl (SchemaWithDuplicatedId (dict_get (tool_schema p) ''$id''))"
    unfolding SchemaRegistry_init_def
    using t sv pk sid ec loop
    by (simp add: dict_getitem_def dict_get_def Let_def del: json_setdefault.simps AList.update.simps)
  with p show ?thesis by blast
qed

theorem duplicate_id_raises_witness:
  "SchemaRegistry_init ex_top_level ex_project
     [ex_plugin ''A'' ''a'' [(''$id'', JStr ''https://example.org/a'')],
      ex_plugin ''B'' ''b'' [(''$id'', JStr ''https://example.org/a'')]]
   = Inl (SchemaWithDuplicatedId (JStr ''https://example.org/a''))
   \<and> SchemaRegistry_init ex_top_level ex_project
     [ex_plugin ''B'' ''b'' [(''$id'', JStr ''https://example.org/a'')],
      ex_plugin ''A'' ''a'' [(''$id'', JStr ''https://example.org/a'')]]
   = Inl (SchemaWithDuplicatedId (JStr ''https://example.org/a''))"
proof -
  let ?a = "ex_plugin ''A'' ''a'' [(''$id'', JStr ''https://example.org/a'')]"
  let ?b = "ex_plugin ''B'' ''b'' [(''$id'', JStr ''https://example.org/a'')]"
  have h1: "top_level_ok ex_top_level"
    by (simp add: top_level_ok_def ex_top_level_def dict_in_def top_level_tool_properties_def
        schema_key_def)
  have h2: "compatible (dict_get ex_top_level ''$schema'') ex_project"
    by (simp add: compatible_def version_matches_def ex_top_level_def ex_project_def dict_get_def
        schema_key_def)
  have h3: "list_all (\<lambda>p. compatible (dict_get ex_top_level ''$schema'') (tool_schema p)) [?a, ?b]"
    by (simp add: compatible_def version_matches_def ex_top_level_def ex_plugin_def dict_get_def
        schema_key_def)
  have h3': "list_all (\<lambda>p. compatible (dict_get ex_top_level ''$schema'') (tool_schema p)) [?b, ?a]"
    using h3 by simp
  have h4: "\<not> distinct (schema_key ex_project # map (\<lambda>p. schema_key (tool_schema p)) [?a, ?b])"
    by (simp add: ex_plugin_def schema_key_def)
  have h4': "\<not> distinct (schema_key ex_project # map (\<lambda>p. schema_key (tool_schema p)) [?b, ?a])"
    by (simp add: ex_plugin_def schema_key_def)
  from duplicate_id_raises[OF h1 h2 h3 h4] duplicate_id_raises[OF h1 h2 h3' h4']
  show ?thesis by (auto simp: ex_plugin_def dict_get_def)
qed

text \<open>
  C2 as stated fails: the version of a fragment is checked before its id is looked up in
  the registry, so a second fragment with the id of the first and another spec version
  raises \<^verbatim>\<open>InvalidSchemaVersion\<close>, not \<^verbatim>\<open>SchemaWithDuplicatedId\<close>.
\<close>

theorem duplicate_id_version_checked_first:
  "dict_get (tool_schema (ex_plugin ''A'' ''a'' [(''$id'', JStr ''https://example.org/a'')])) ''$id''
   = dict_get (tool_schema (ex_plugin ''B'' ''b''
       [(''$id'', JStr ''https://example.org/a''),
        (''$schema'', JStr ''http://json-schema.org/draft-04/schema'')])) ''$id''
   \<and> SchemaRegistry_init ex_top_level ex_project
     [ex_plugin ''A'' ''a'' [(''$id'', JStr ''https://example.org/a'')],
      ex_plugin ''B'' ''b'' [(''$id'', JStr ''https://example.org/a''),
                              (''$schema'', JStr ''http://json-schema.org/draft-04/schema'')]]
   = Inl (InvalidSchemaVersion ''b'' (JStr ''http://json-schema.org/draft-04/schema'')
            (JStr ''http://json-schema.org/draft-07/schema''))"
  by (simp add: SchemaRegistry_init_def register_plugin_def ensure_compatibility_def
      ex_top_level_def ex_project_def ex_plugin_def dict_getitem_def dict_get_def dict_in_def
      plugin_id_def Let_def)

text \<open>
  C4. When a plugin \<open>p1\<close> and a later plugin \<open>p2\<close> declare the same tool name (the
  ids of all schemas being distinct and all schemas compatible, as in C1, and \<open>p2\<close> the
  last plugin with that name), construction succeeds, the property of that name under
  \<^verbatim>\<open>properties.tool.properties\<close> of the root schema is a \<^verbatim>\<open>$ref\<close> to the id of the later
  plugin's schema, and the schema of the earlier plugin is still retrieved by its own id.
\<close>

theorem tool_name_collision:
  assumes "top_level_ok top_level"
    and "compatible (dict_get top_level ''$schema'') project"
    and "list_all (\<lambda>p. compatible (dict_get top_level ''$schema'') (tool_schema p))
           (before @ p2 # after)"
    and "distinct (schema_key top_level # schema_key project
                   # map (\<lambda>p. schema_key (tool_schema p)) (before @ p2 # after))"
    and "p1 \<in> set before" and "tool_name p1 = tool_name p2"
    and "\<forall>q \<in> set after. tool_name q \<noteq> tool_name p2"
  shows "\<exists>registry lg main.
           SchemaRegistry_init top_level project (before @ p2 # after) = Inr (registry, lg)
           \<and> registry_main registry = Inr main
           \<and> json_path (JDict main) [''properties'', ''tool'', ''properties'', tool_name p2]
               = Some (JDict [(''$ref'', dict_get (tool_schema p2) ''$id'')])
           \<and> registry_getitem registry (dict_get (tool_schema p1) ''$id'') = Inr (tool_schema p1)"
proof -
  let ?ps = "before @ p2 # after"
  let ?rk = "the (schema_key top_level)"
  have keys: "distinct (?rk # the (schema_key project) # map (fst \<circ> plugin_entry) ?ps)"
    using assms(1-4) by (rule compatible_keys)
  then have d: "distinct (the (schema_key project) # map (fst \<circ> plugin_entry) ?ps)"
    by simp
  let ?e = "(the (schema_key project), (''project'', api_name @ '' - PEP621'', project))"
  from SchemaRegistry_init_ok[OF assms(1-3) d] obtain main lg where
    init: "SchemaRegistry_init top_level project ?ps =
      Inr (\<lparr>r_schemas =
              AList.update ?rk (''<$ROOT>'', api_name @ '' - PEP517/518'', main)
                (?e # map plugin_entry ?ps),
            r_spec_version = dict_get top_level ''$schema'',
            r_main_id = dict_get top_level ''$id''\<rparr>, lg)"
    and path: "json_path (JDict main) [''properties'', ''tool'', ''properties'']
        = Some (JDict (mounted_tools (the (top_level_tool_properties top_level)) ?ps))"
    by blast
  let ?reg = "\<lparr>r_schemas =
              AList.update ?rk (''<$ROOT>'', api_name @ '' - PEP517/518'', main)
                (?e # map plugin_entry ?ps),
            r_spec_version = dict_get top_level ''$schema'',
            r_main_id = dict_get top_level ''$id''\<rparr>"
  from assms(1) obtain rid where rid: "map_of top_level ''$id'' = Some rid" "hash_key rid = Inr ?rk"
    by (auto simp: top_level_ok_def schema_key_def split: option.splits sum.splits)
  have main: "registry_main ?reg = Inr main"
    using rid by (simp add: registry_main_def registry_getitem_def dict_get_def update_conv'
        del: AList.update.simps)
  have "json_path (JDict main) ([''properties'', ''tool'', ''properties''] @ [tool_name p2])
      = Some (tool_ref p2)"
    unfolding json_path_append using path mounted_tools_last[OF assms(7)] by simp
  then have ref: "json_path (JDict main) [''properties'', ''tool'', ''properties'', tool_name p2]
      = Some (JDict [(''$ref'', dict_get (tool_schema p2) ''$id'')])"
    by (simp add: tool_ref_def)
  from assms(3,5) have c1: "compatible (dict_get top_level ''$schema'') (tool_schema p1)"
    by (auto simp: list_all_iff)
  then obtain k1 where k1: "schema_key (tool_schema p1) = Some k1" by (auto simp: compatible_def)
  then obtain sid1 where sid1: "map_of (tool_schema p1) ''$id'' = Some sid1" "hash_key sid1 = Inr k1"
    by (auto simp: schema_key_def split: option.splits sum.splits)
  have fk1: "fst (plugin_entry p1) = k1" using k1 by (simp add: plugin_entry_def)
  have p1: "p1 \<in> set ?ps" using assms(5) by simp
  have dps: "distinct (map (fst \<circ> plugin_entry) ?ps)" using d by simp
  have l1: "map_of (map plugin_entry ?ps) k1 = Some (snd (plugin_entry p1))"
    using map_of_plugin_entry[OF dps p1] fk1 by simp
  have ne: "k1 \<noteq> ?rk" "k1 \<noteq> the (schema_key project)"
    using keys p1 fk1 by (auto simp: image_iff)
  have "map_of (AList.update ?rk (''<$ROOT>'', api_name @ '' - PEP517/518'', main)
                (?e # map plugin_entry ?ps)) k1 = Some (snd (plugin_entry p1))"
    using l1 ne by (simp add: update_conv' del: AList.update.simps)
  then have get: "registry_getitem ?reg (dict_get (tool_schema p1) ''$id'') = Inr (tool_schema p1)"
    using sid1 by (simp add: registry_getitem_def dict_get_def plugin_entry_def)
  show ?thesis using init main ref get by blast
qed

theorem tool_name_collision_witness:
  "\<exists>registry lg main.
     SchemaRegistry_init ex_top_level ex_project
       [ex_plugin ''A'' ''x'' [(''$id'', JStr ''https://example.org/a'')],
        ex_plugin ''B'' ''x'' [(''$id'', JStr ''https://example.org/b'')]] = Inr (registry, lg)
     \<and> registry_main registry = Inr main
     \<and> json_path (JDict main) [''properties'', ''tool'', ''properties'', ''x'']
         = Some (JDict [(''$ref'', JStr ''https://example.org/b'')])
     \<and> registry_getitem registry (JStr ''https://example.org/a'')
         = Inr [(''$id'', JStr ''https://example.org/a'')]"
proof -
  let ?a = "ex_plugin ''A'' ''x'' [(''$id'', JStr ''https://example.org/a'')]"
  let ?b = "ex_plugin ''B'' ''x'' [(''$id'', JStr ''https://example.org/b'')]"
  have h1: "top_level_ok ex_top_level"
    by (simp add: top_level_ok_def ex_top_level_def dict_in_def top_level_tool_properties_def
        schema_key_def)
  have h2: "compatible (dict_get ex_top_level ''$schema'') ex_project"
    by (simp add: compatible_def version_matches_def ex_top_level_def ex_project_def dict_get_def
        schema_key_def)
  have h3: "list_all (\<lambda>p. compatible (dict_get ex_top_level ''$schema'') (tool_schema p))
      ([?a] @ ?b # [])"
    by (simp add: compatible_def version_matches_def ex_top_level_def ex_plugin_def dict_get_def
        schema_key_def)
  have h4: "distinct (schema_key ex_top_level # schema_key ex_project
                      # map (\<lambda>p. schema_key (tool_schema p)) ([?a] @ ?b # []))"
    by (simp add: ex_top_level_def ex_project_def ex_plugin_def schema_key_def)
  have h5: "?a \<in> set [?a]" by simp
  have h6: "tool_name ?a = tool_name ?b" by (simp add: ex_plugin_def)
  have h7: "\<forall>q \<in> set []. tool_name q \<noteq> tool_name ?b" by simp
  from tool_name_collision[OF h1 h2 h3 h4 h5 h6 h7]
  show ?thesis by (simp add: ex_plugin_def dict_get_def)
qed

section \<open>The reference handler\<close>

text \<open>
  C10. A membership test with a key that is not a string answers \<^verbatim>\<open>False\<close> and leaves the
  handler as it was: its length and the remembered schemes are unchanged. A string that
  is not yet remembered, by contrast, makes the handler one longer.
\<close>

theorem RefHandler_contains_non_str:
  "(\<not> is_str k \<longrightarrow>
      RefHandler_contains k self = (False, self)
      \<and> RefHandler_len (snd (RefHandler_contains k self)) = RefHandler_len self
      \<and> RefHandler_iter (snd (RefHandler_contains k self)) = RefHandler_iter self)
   \<and> (s \<notin> set (RefHandler_iter self) \<longrightarrow>
      RefHandler_len (snd (RefHandler_contains (JStr s) self)) = RefHandler_len self + 1)"
  by (simp add: RefHandler_contains_def RefHandler_len_def RefHandler_iter_def)

theorem RefHandler_contains_non_str_witness:
  "\<not> is_str (JInt 7) \<and> \<not> is_str JNull
   \<and> RefHandler_contains (JInt 7) (RefHandler_init ex_registry) = (False, RefHandler_init ex_registry)
   \<and> RefHandler_contains JNull (RefHandler_init ex_registry) = (False, RefHandler_init ex_registry)
   \<and> RefHandler_len (snd (RefHandler_contains (JInt 7) (RefHandler_init ex_registry))) = 2
   \<and> ''ftp'' \<notin> set (RefHandler_iter (RefHandler_init ex_registry))
   \<and> RefHandler_len (snd (RefHandler_contains (JStr ''ftp'') (RefHandler_init ex_registry))) = 3"
  using RefHandler_contains_non_str[of "JInt 7" "RefHandler_init ex_registry" "''ftp''"]
    RefHandler_contains_non_str[of JNull "RefHandler_init ex_registry" "''ftp''"]
  by (simp add: RefHandler_init_def RefHandler_len_def RefHandler_iter_def)

text \<open>
  C7. A membership test with any string answers \<^verbatim>\<open>True\<close> (so \<^verbatim>\<open>http\<close> and \<^verbatim>\<open>https\<close>,
  which a new handler enumerates, always do); the string is enumerated by the handler
  afterwards, no membership test makes the handler forget a scheme or changes its
  registry; and the lookup of any scheme returns the registry's own lookup, which ignores
  the scheme and finds the referenced id by its exact key.
\<close>

theorem RefHandler_str_keys:
  "fst (RefHandler_contains (JStr s) self) = True
   \<and> s \<in> set (RefHandler_iter (snd (RefHandler_contains (JStr s) self)))
   \<and> set (RefHandler_iter self) \<subseteq> set (RefHandler_iter (snd (RefHandler_contains k self)))
   \<and> h_registry (snd (RefHandler_contains k self)) = h_registry self
   \<and> RefHandler_iter (RefHandler_init registry) = [''http'', ''https'']
   \<and> RefHandler_getitem scheme self = registry_getitem (h_registry self)
   \<and> RefHandler_getitem scheme self (JStr uri)
       = (case map_of (r_schemas (h_registry self)) (KStr uri) of
            None \<Rightarrow> Inl (KeyError (JStr uri))
          | Some (slot, origin, found) \<Rightarrow> Inr found)"
  by (auto simp: RefHandler_contains_def RefHandler_iter_def RefHandler_init_def
      RefHandler_getitem_def registry_getitem_def split: json.splits)

theorem RefHandler_str_keys_witness:
  "RefHandler_contains (JStr ''ftp'') (RefHandler_init ex_registry)
     = (True, \<lparr>h_uri_schemas = [''http'', ''https'', ''ftp''], h_registry = ex_registry\<rparr>)
   \<and> RefHandler_contains (JStr ''http'') (RefHandler_init ex_registry)
     = (True, RefHandler_init ex_registry)
   \<and> RefHandler_getitem ''ftp'' (RefHandler_init ex_registry) (JStr ''https://example.org/a'')
     = Inr [(''$id'', JStr ''https://example.org/a'')]
   \<and> RefHandler_getitem ''http'' (RefHandler_init ex_registry) (JStr ''http://example.org/a'')
     = Inl (KeyError (JStr ''http://example.org/a''))"
  using RefHandler_str_keys[of "''ftp''" "RefHandler_init ex_registry" JNull ex_registry "''ftp''"
      "''https://example.org/a''"]
    RefHandler_str_keys[of "''http''" "RefHandler_init ex_registry" JNull ex_registry "''http''"
      "''http://example.org/a''"]
  by (simp add: RefHandler_contains_def RefHandler_init_def RefHandler_getitem_def
      registry_getitem_def ex_registry_def)

section \<open>The validator\<close>



lemma map_of_dict_update_all:
  "map_of (dict_update_all d m) = map_of d ++ pairs_lookup m"
  unfolding dict_update_all_def pairs_lookup_def
proof (induction m arbitrary: d)
  case Nil
  then show ?case by simp
next
  case (Cons kv m)
  obtain k v where kv: "kv = (k, v)" by (cases kv)
  have "map_of (AList.update k v d) ++ map_of (rev m) = map_of d ++ (map_of (rev m @ [(k, v)]))"
    by (simp add: update_conv' map_of_append fun_eq_iff map_add_def split: option.splits)
  with Cons[of "AList.update k v d"] kv show ?case by simp
qed

lemma distinct_dict_update_all:
  "distinct (map fst d) \<Longrightarrow> distinct (map fst (dict_update_all d m))"
  unfolding dict_update_all_def
  by (induction m arbitrary: d) (auto simp: distinct_update)

lemma dict_update_all_distinct:
  "distinct (map fst (e @ d)) \<Longrightarrow> dict_update_all e d = e @ d"
  unfolding dict_update_all_def
proof (induction d arbitrary: e)
  case Nil
  then show ?case by simp
next
  case (Cons kv d)
  obtain k v where kv: "kv = (k, v)" by (cases kv)
  with Cons.prems have "k \<notin> fst ` set e" by auto
  then have "map_of e k = None" by (simp add: map_of_eq_None_iff)
  then have u: "AList.update k v e = e @ [(k, v)]" by (rule update_fresh)
  from Cons.prems kv have "distinct (map fst ((e @ [(k, v)]) @ d))" by simp
  from Cons.IH[OF this] u kv show ?case by simp
qed

lemma py_dict_idem: "py_dict (py_dict xs) = py_dict xs"
proof -
  have d: "distinct (map fst (py_dict xs))"
    using distinct_dict_update_all[of "[]" xs] by (simp add: py_dict_def dict_update_all_def)
  have "py_dict (py_dict xs) = dict_update_all [] (py_dict xs)"
    by (simp add: py_dict_def dict_update_all_def)
  also have "\<dots> = [] @ py_dict xs" using d by (intro dict_update_all_distinct) simp
  finally show ?thesis by simp
qed

lemma dict_update_all_append:
  "dict_update_all d (xs @ ys) = dict_update_all (dict_update_all d xs) ys"
  by (simp add: dict_update_all_def)

lemma dict_update_all_plugins:
  "dict_update_all d (concat (map (\<lambda>p. the (format_validators p))
                               (filter (\<lambda>p. format_validators p \<noteq> None) ps)))
   = foldl (\<lambda>d p. case format_validators p of None \<Rightarrow> d | Some m \<Rightarrow> dict_update_all d m) d ps"
proof (induction ps arbitrary: d)
  case Nil
  then show ?case by (simp add: dict_update_all_def)
next
  case (Cons p ps)
  then show ?case
    by (cases "format_validators p") (simp_all add: dict_update_all_append)
qed

lemma Validator_formats_fresh:
  assumes "v_format_validators self = None"
  shows "fst (Validator_formats self)
         = foldl (\<lambda>d p. case format_validators p of None \<Rightarrow> d | Some m \<Rightarrow> dict_update_all d m)
             (py_dict (v_in_format_validators self)) (v_plugins self)"
    and "v_format_validators (snd (Validator_formats self)) = Some (fst (Validator_formats self))"
proof -
  let ?rest = "concat (map (\<lambda>p. the (format_validators p))
                        (filter (\<lambda>p. format_validators p \<noteq> None) (v_plugins self)))"
  have "fst (Validator_formats self) = py_dict (v_in_format_validators self @ ?rest)"
    using assms by (simp add: Validator_formats_def Let_def)
  also have "\<dots> = dict_update_all (py_dict (v_in_format_validators self)) ?rest"
    by (simp add: py_dict_def dict_update_all_def)
  also have "\<dots> = foldl (\<lambda>d p. case format_validators p of None \<Rightarrow> d | Some m \<Rightarrow> dict_update_all d m)
             (py_dict (v_in_format_validators self)) (v_plugins self)"
    by (rule dict_update_all_plugins)
  finally show "fst (Validator_formats self)
         = foldl (\<lambda>d p. case format_validators p of None \<Rightarrow> d | Some m \<Rightarrow> dict_update_all d m)
             (py_dict (v_in_format_validators self)) (v_plugins self)" .
  show "v_format_validators (snd (Validator_formats self)) = Some (fst (Validator_formats self))"
    using assms by (simp add: Validator_formats_def Let_def)
qed

lemma Validator_init_fields:
  assumes "Validator_init top_level project entry_points plugins caller extra = Inr (self, lg)"
  shows "v_format_validators self = None" and "v_cache self = None"
    and "v_in_format_validators self = py_dict caller"
    and "v_in_extra_validations self = extra"
    and "v_plugins self = (case plugins of ALL_PLUGINS \<Rightarrow> entry_points | Plugins xs \<Rightarrow> xs)"
  using assms
  by (auto simp: Validator_init_def Let_def split: sum.splits prod.splits
      elim!: bind_err.elims)

lemma formats_spec_lookup:
  "map_of (formats_spec caller ps)
   = foldl (++) (pairs_lookup caller) (map declared_formats ps)"
proof -
  have "map_of (foldl (\<lambda>d p. case format_validators p of None \<Rightarrow> d | Some m \<Rightarrow> dict_update_all d m) d ps)
        = foldl (++) (map_of d) (map declared_formats ps)" for d
  proof (induction ps arbitrary: d)
    case Nil
    then show ?case by simp
  next
    case (Cons p ps)
    show ?case
      by (cases "format_validators p")
         (simp_all add: Cons.IH declared_formats_def map_of_dict_update_all)
  qed
  then show ?thesis by (simp add: formats_spec_def map_of_dict_update_all)
qed

lemma foldl_map_add_none:
  "\<forall>g \<in> set gs. g k = None \<Longrightarrow> foldl (++) m gs k = m k"
  by (induction gs arbitrary: m) (auto simp: map_add_def)

lemma foldl_map_add_last:
  assumes "\<forall>g \<in> set after. g k = None" and "f k = Some v"
  shows "foldl (++) m0 (before @ f # after) k = Some v"
  using foldl_map_add_none[OF assms(1)] assms(2) by (simp add: map_add_def)

text \<open>
  C5. \<^verbatim>\<open>Validator.formats\<close> of a constructed validator is the dictionary built by
  inserting the caller's mapping first and then the \<^verbatim>\<open>format_validators\<close> of each plugin
  that declares them, in plugin order; it is the same on every later use. A later
  insertion wins: the function of a key is the one of the last plugin that declares the
  key, whatever the caller and the earlier plugins gave it, and the caller's when no
  plugin declares it.
\<close>

theorem Validator_formats_merge:
  assumes "Validator_init top_level project entry_points plugins caller extra = Inr (self, lg)"
  shows "fst (Validator_formats self) = formats_spec caller (v_plugins self)
    \<and> fst (Validator_formats (snd (Validator_formats self))) = formats_spec caller (v_plugins self)
    \<and> map_of (formats_spec caller (v_plugins self))
        = foldl (++) (pairs_lookup caller) (map declared_formats (v_plugins self))
    \<and> (\<forall>before p after k f.
          v_plugins self = before @ p # after \<and> declared_formats p k = Some f
          \<and> (\<forall>q \<in> set after. declared_formats q k = None)
          \<longrightarrow> map_of (fst (Validator_formats self)) k = Some f)
    \<and> (\<forall>k. (\<forall>q \<in> set (v_plugins self). declared_formats q k = None)
          \<longrightarrow> map_of (fst (Validator_formats self)) k = pairs_lookup caller k)"
proof -
  note f = Validator_init_fields[OF assms]
  have c1: "fst (Validator_formats self) = formats_spec caller (v_plugins self)"
    using Validator_formats_fresh(1)[OF f(1)] f(3)
    by (simp add: formats_spec_def py_dict_idem) (simp add: py_dict_def dict_update_all_def)
  have c2: "fst (Validator_formats (snd (Validator_formats self))) = fst (Validator_formats self)"
    using Validator_formats_fresh(2)[OF f(1)]
    by (simp add: Validator_formats_def[of "snd (Validator_formats self)"])
  have c3: "map_of (formats_spec caller (v_plugins self))
        = foldl (++) (pairs_lookup caller) (map declared_formats (v_plugins self))"
    by (rule formats_spec_lookup)
  have c4: "map_of (fst (Validator_formats self)) k = Some f"
    if "v_plugins self = before @ p # after" "declared_formats p k = Some f"
      "\<forall>q \<in> set after. declared_formats q k = None" for before p after k f
  proof -
    have "\<forall>g \<in> set (map declared_formats after). g k = None" using that(3) by simp
    from foldl_map_add_last[of "map declared_formats after" k "declared_formats p" f
        "pairs_lookup caller" "map declared_formats before", OF this that(2)]
    show ?thesis using c1 c3 that(1) by simp
  qed
  have c2': "fst (Validator_formats (snd (Validator_formats self)))
      = formats_spec caller (v_plugins self)"
    using c1 c2 by simp
  have c4': "\<forall>before p after k f.
          v_plugins self = before @ p # after \<and> declared_formats p k = Some f
          \<and> (\<forall>q \<in> set after. declared_formats q k = None)
          \<longrightarrow> map_of (fst (Validator_formats self)) k = Some f"
    using c4 by blast
  have c5: "\<forall>k. (\<forall>q \<in> set (v_plugins self). declared_formats q k = None)
          \<longrightarrow> map_of (fst (Validator_formats self)) k = pairs_lookup caller k"
  proof (intro allI impI)
    fix k
    assume "\<forall>q \<in> set (v_plugins self). declared_formats q k = None"
    then have "\<forall>g \<in> set (map declared_formats (v_plugins self)). g k = None" by simp
    from foldl_map_add_none[OF this, of "pairs_lookup caller"]
    show "map_of (fst (Validator_formats self)) k = pairs_lookup caller k"
      using c1 c3 by simp
  qed
  show ?thesis by (rule conjI[OF c1 conjI[OF c2' conjI[OF c3 conjI[OF c4' c5]]]])
qed

theorem Validator_formats_merge_witness:
  "\<exists>self lg.
     Validator_init ex_top_level ex_project [] (Plugins ex_formats_plugins)
       [(''f'', 1), (''g'', 2)] ([] :: (json, unit) validation_fn list) = Inr (self, lg)
     \<and> fst (Validator_formats self) = [(''f'', 30), (''g'', 2), (''h'', 31)]
     \<and> fst (Validator_formats (snd (Validator_formats self))) = [(''f'', 30), (''g'', 2), (''h'', 31)]"
proof -
  obtain self lg where init:
    "Validator_init ex_top_level ex_project [] (Plugins ex_formats_plugins)
       [(''f'', 1), (''g'', 2)] ([] :: (json, unit) validation_fn list) = Inr (self, lg)"
    by (simp add: Validator_init_def SchemaRegistry_init_def register_plugin_def
        ensure_compatibility_def ex_top_level_def ex_project_def ex_formats_plugins_def
        dict_getitem_def dict_get_def dict_in_def Let_def)
  have ps: "v_plugins self = ex_formats_plugins"
    using Validator_init_fields(5)[OF init] by simp
  have m: "formats_spec [(''f'', 1), (''g'', 2)] ex_formats_plugins
      = [(''f'', 30), (''g'', 2), (''h'', 31)]"
    by (simp add: formats_spec_def dict_update_all_def ex_formats_plugins_def)
  from Validator_formats_merge[OF init] ps m init show ?thesis by auto
qed

lemma Validator_compiled_extra:
  assumes "Validator_compiled fjs_compile self = (r, self')"
  shows "Validator_extra_validations self' = Validator_extra_validations self"
  using assms
  by (auto simp: Validator_compiled_def Validator_formats_def Validator_extra_validations_def
      Let_def split: option.splits sum.splits prod.splits)

text \<open>
  C6. For a validator with the extra validations \<open>[A, B]\<close> and a document that the compiled
  validator accepts, the call returns what \<open>B\<close> returns on the result of \<open>A\<close> on the
  document; when \<open>A\<close> raises, the call raises the same exception and the world is as
  \<open>A\<close> left it, whatever \<open>B\<close> is: \<open>B\<close> is not called.
\<close>

theorem Validator_call_pipeline:
  assumes "Validator_compiled fjs_compile self = (Inr check, self')"
    and "check doc w = (Inr checked, w0)"
    and "Validator_extra_validations self = [A, B]"
  shows "(\<forall>d1 w1. A doc w0 = (Inr d1, w1) \<longrightarrow>
            Validator_call fjs_compile self doc w = (fst (B d1 w1), self', snd (B d1 w1)))
       \<and> (\<forall>e w1. A doc w0 = (Inl e, w1) \<longrightarrow>
            Validator_call fjs_compile self doc w = (Inl e, self', w1))"
proof -
  have fns: "Validator_extra_validations self' = [A, B]"
    using Validator_compiled_extra[OF assms(1)] assms(3) by simp
  show ?thesis
    using assms(1,2) fns
    by (auto simp: Validator_call_def split: sum.splits prod.splits)
qed

theorem Validator_call_pipeline_witness:
  "fst (Validator_call ex_compile (ex_validator [ex_wrap, ex_pair]) (JInt 1) [])
     = Inr (JList [JList [JInt 1], JList [JInt 1]])
   \<and> snd (snd (Validator_call ex_compile (ex_validator [ex_wrap, ex_pair]) (JInt 1) []))
     = [''schema'', ''wrap'', ''pair'']
   \<and> fst (Validator_call ex_compile (ex_validator [ex_reject, ex_pair]) (JInt 1) [])
     = Inl (Raised ''rejected'')
   \<and> snd (snd (Validator_call ex_compile (ex_validator [ex_reject, ex_pair]) (JInt 1) []))
     = [''schema'', ''reject'']"
proof -
  let ?check = "\<lambda>(d::json) (w::string list). (Inr d :: error + json, w @ [''schema''])"
  have c: "\<exists>self'. Validator_compiled ex_compile (ex_validator fns) = (Inr ?check, self')" for fns
    by (simp add: Validator_compiled_def Validator_schema_def registry_main_def
        registry_getitem_def Validator_formats_def ex_validator_def ex_registry_def
        ex_compile_def py_dict_def Let_def)
  from c obtain s1 where s1:
    "Validator_compiled ex_compile (ex_validator [ex_wrap, ex_pair]) = (Inr ?check, s1)" by blast
  from c obtain s2 where s2:
    "Validator_compiled ex_compile (ex_validator [ex_reject, ex_pair]) = (Inr ?check, s2)" by blast
  have k: "?check (JInt 1) [] = (Inr (JInt 1), [''schema''])" by simp
  have e1: "Validator_extra_validations (ex_validator [ex_wrap, ex_pair]) = [ex_wrap, ex_pair]"
    by (simp add: Validator_extra_validations_def ex_validator_def)
  have e2: "Validator_extra_validations (ex_validator [ex_reject, ex_pair]) = [ex_reject, ex_pair]"
    by (simp add: Validator_extra_validations_def ex_validator_def)
  from Validator_call_pipeline[OF s1 k e1] Validator_call_pipeline[OF s2 k e2]
  show ?thesis by (simp add: ex_wrap_def ex_pair_def ex_reject_def)
qed

section \<open>The patched code\<close>

text \<open>
  The search of \<^verbatim>\<open>_fix_generated_code\<close> runs on the code after the rewrite of the
  signatures. The lemmas below follow a line that is no signature through that rewrite:
  the text before it is rewritten as if it stood alone, the line is kept, and a text such
  as the marker of the assignment occurs in the result only where it occurred before.
\<close>

lemma is_substring_sublist: "is_substring xs ys = sublist xs ys"
proof (induction ys)
  case Nil
  then show ?case by simp
next
  case (Cons y ys)
  have "(take (length xs) (y # ys) = xs) = prefix xs (y # ys)"
    by (metis take_is_prefix prefix_def append_eq_conv_conj)
  with Cons show ?case by (simp add: sublist_Cons_right)
qed

lemma lower_ascii_newline: "lower_ascii (CHR 0x0A) = CHR 0x0A"
  by (simp add: lower_ascii_def)

text \<open>A match that starts in a text ending with a line end does not reach into what
  follows it, when that begins with a character that is neither white space nor a
  \<^verbatim>\<open>v\<close>: after \<^verbatim>\<open>def\<close> only white space and \<^verbatim>\<open>validate\<close> can go on.\<close>

lemma ci_literal_append:
  assumes "s \<noteq> []" and "last s = CHR 0x0A" and "CHR 0x0A \<notin> set lit"
  shows "ci_literal lit (s @ t) = map_option (\<lambda>r. r @ t) (ci_literal lit s)"
    and "ci_literal lit s = Some r \<Longrightarrow> r \<noteq> [] \<and> last r = CHR 0x0A"
proof -
  have nl: "CHR 0x0A \<in> set s" using assms(1,2) by (metis last_in_set)
  show "ci_literal lit (s @ t) = map_option (\<lambda>r. r @ t) (ci_literal lit s)"
  proof (cases "length lit < length s")
    case True
    then show ?thesis by (simp add: ci_literal_def)
  next
    case False
    then have "set s \<subseteq> set (take (length lit) (s @ t))" by simp
    with nl have m1: "CHR 0x0A \<in> set (map lower_ascii (take (length lit) (s @ t)))"
      using lower_ascii_newline by (metis image_eqI set_map subsetD)
    have 1: "map lower_ascii (take (length lit) (s @ t)) \<noteq> lit"
    proof
      assume e: "map lower_ascii (take (length lit) (s @ t)) = lit"
      from m1 have "CHR 0x0A \<in> set lit" unfolding e .
      with assms(3) show False by simp
    qed
    from nl have m2: "CHR 0x0A \<in> set (map lower_ascii s)"
      using lower_ascii_newline by (metis image_eqI set_map)
    have 2: "map lower_ascii s \<noteq> lit"
    proof
      assume e: "map lower_ascii s = lit"
      from m2 have "CHR 0x0A \<in> set lit" unfolding e .
      with assms(3) show False by simp
    qed
    from False 1 2 show ?thesis by (auto simp: ci_literal_def)
  qed
  show "r \<noteq> [] \<and> last r = CHR 0x0A" if "ci_literal lit s = Some r"
  proof -
    from that have r: "r = drop (length lit) s" and le: "length lit \<le> length s"
      and m: "map lower_ascii (take (length lit) s) = lit"
      by (auto simp: ci_literal_def split: if_splits)
    have "length lit \<noteq> length s"
    proof
      assume "length lit = length s"
      with m have "map lower_ascii s = lit" by simp
      with nl lower_ascii_newline have "CHR 0x0A \<in> set lit" by (metis image_eqI set_map)
      with assms(3) show False by simp
    qed
    with le have "length lit < length s" by simp
    with r assms(2) show ?thesis by simp
  qed
qed

lemma ends_newline_dropWhile:
  assumes "ends_newline s" and "\<not> P (CHR 0x0A)"
  shows "ends_newline (dropWhile P s)"
    and "takeWhile P (s @ t) = takeWhile P s"
    and "dropWhile P (s @ t) = dropWhile P s @ t"
proof -
  from assms(1) have nl: "CHR 0x0A \<in> set s" unfolding ends_newline_def by (metis last_in_set)
  show "takeWhile P (s @ t) = takeWhile P s" using nl assms(2) by (rule takeWhile_append1)
  show "dropWhile P (s @ t) = dropWhile P s @ t" using nl assms(2) by (rule dropWhile_append1)
  have ne: "dropWhile P s \<noteq> []" using nl assms(2) by (auto simp: dropWhile_eq_Nil_conv)
  have "s = takeWhile P s @ dropWhile P s" by simp
  then have "last s = last (dropWhile P s)" using ne by (metis last_appendR)
  with ne assms(1) show "ends_newline (dropWhile P s)" by (simp add: ends_newline_def)
qed

lemma is_space_newline: "is_space (CHR 0x0A)"
  by (simp add: is_space_def)

lemma is_word_newline: "\<not> is_word (CHR 0x0A)"
  by (simp add: is_word_def)

lemma ci_literal_head:
  assumes "lit \<noteq> []" and "lower_ascii y \<noteq> hd lit"
  shows "ci_literal lit (y # ys) = None"
  using assms by (cases lit) (auto simp: ci_literal_def)

lemma match_append:
  assumes e: "ends_newline xs" and y1: "\<not> is_space y" and y2: "lower_ascii y \<noteq> CHR ''v''"
  shows "match_VALIDATION_FN_DEF (xs @ y # ys)
         = map_option (\<lambda>(g1, g2, rest). (g1, g2, rest @ y # ys)) (match_VALIDATION_FN_DEF xs)"
    and "match_VALIDATION_FN_DEF xs = Some (g1, g2, rest) \<Longrightarrow> ends_newline rest"
proof -
  let ?ws = "\<lambda>c. c = CHR 0x09 \<or> c = CHR '' ''"
  let ?t = "y # ys"
  have ws: "\<not> ?ws (CHR 0x0A)" by simp
  note w = ends_newline_dropWhile[of xs ?ws, OF e ws]
  define s1 where "s1 = dropWhile ?ws xs"
  have e1: "ends_newline s1" unfolding s1_def by (rule w(1))
  have l1: "CHR 0x0A \<notin> set ''def''" "CHR 0x0A \<notin> set ''validate''" "CHR 0x0A \<notin> set ''(data):''"
    by simp_all
  have both: "match_VALIDATION_FN_DEF (xs @ ?t)
         = map_option (\<lambda>(g1, g2, rest). (g1, g2, rest @ ?t)) (match_VALIDATION_FN_DEF xs)
       \<and> (\<forall>g1 g2 rest. match_VALIDATION_FN_DEF xs = Some (g1, g2, rest) \<longrightarrow> ends_newline rest)"
  proof (cases "ci_literal ''def'' s1")
    case None
    then have "ci_literal ''def'' (s1 @ ?t) = None"
      using ci_literal_append(1)[of s1 "''def''" ?t] e1 by (simp add: ends_newline_def)
    with None show ?thesis
      by (simp add: match_VALIDATION_FN_DEF_def Let_def w(2) w(3) s1_def[symmetric])
  next
    case (Some s2)
    have c2: "ci_literal ''def'' (s1 @ ?t) = Some (s2 @ ?t)"
      using ci_literal_append(1)[of s1 "''def''" ?t] e1 Some by (simp add: ends_newline_def)
    have e2: "ends_newline s2"
      using ci_literal_append(2)[of s1 "''def''" s2] e1 Some by (simp add: ends_newline_def)
    show ?thesis
    proof (cases "\<forall>x \<in> set s2. is_space x")
      case True
      then have d1: "dropWhile is_space (s2 @ ?t) = ?t" using y1 by simp
      from True have d2: "dropWhile is_space s2 = []" by simp
      have n1: "ci_literal ''validate'' ?t = None" using y2 by (intro ci_literal_head) simp_all
      have n2: "ci_literal ''validate'' [] = None" by (simp add: ci_literal_def)
      show ?thesis
        by (simp add: match_VALIDATION_FN_DEF_def Let_def w(2) w(3) s1_def[symmetric]
            Some c2 d1 d2 n1 n2 del: dropWhile_eq_Nil_conv dropWhile_append)
    next
      case False
      then obtain x where x: "x \<in> set s2" "\<not> is_space x" by blast
      have d1: "dropWhile is_space (s2 @ ?t) = dropWhile is_space s2 @ ?t"
        using x by (rule dropWhile_append1)
      define s2' where "s2' = dropWhile is_space s2"
      have ne: "s2' \<noteq> []" unfolding s2'_def using x by (auto simp: dropWhile_eq_Nil_conv)
      have "s2 = takeWhile is_space s2 @ s2'" by (simp add: s2'_def)
      then have "last s2 = last s2'" using ne by (metis last_appendR)
      with ne e2 have e2': "ends_newline s2'" by (simp add: ends_newline_def)
      show ?thesis
      proof (cases "ci_literal ''validate'' s2'")
        case None
        then have "ci_literal ''validate'' (s2' @ ?t) = None"
          using ci_literal_append(1)[of s2' "''validate''" ?t] e2' by (simp add: ends_newline_def)
        with None Some c2 d1 show ?thesis
          by (simp add: match_VALIDATION_FN_DEF_def Let_def w(2) w(3) s1_def[symmetric]
              s2'_def[symmetric])
      next
        case s3: (Some s3)
        have c3: "ci_literal ''validate'' (s2' @ ?t) = Some (s3 @ ?t)"
          using ci_literal_append(1)[of s2' "''validate''" ?t] e2' s3 by (simp add: ends_newline_def)
        have e3: "ends_newline s3"
          using ci_literal_append(2)[of s2' "''validate''" s3] e2' s3 by (simp add: ends_newline_def)
        define opt :: "string \<Rightarrow> string \<times> string" where "opt z =
          (case z of
             [] \<Rightarrow> ([], z)
           | c # cs \<Rightarrow>
               if c = CHR ''_'' \<and> takeWhile is_word cs \<noteq> []
               then (c # takeWhile is_word cs, dropWhile is_word cs)
               else ([], z))" for z
        have o: "opt (s3 @ ?t) = (fst (opt s3), snd (opt s3) @ ?t) \<and> ends_newline (snd (opt s3))"
        proof -
          from e3 obtain c cs where s3c: "s3 = c # cs" by (cases s3) (auto simp: ends_newline_def)
          show ?thesis
          proof (cases "c = CHR ''_''")
            case True
            with e3 s3c have ecs: "ends_newline cs" by (auto simp: ends_newline_def split: if_splits)
            note k = ends_newline_dropWhile[of cs is_word, OF ecs is_word_newline]
            show ?thesis using True s3c k(1) k(2)[of ?t] k(3)[of ?t] e3 by (simp add: opt_def)
          next
            case False
            then show ?thesis using s3c e3 by (simp add: opt_def)
          qed
        qed
        obtain g2 s4 where os: "opt s3 = (g2, s4)" by (cases "opt s3")
        with o have os': "opt (s3 @ ?t) = (g2, s4 @ ?t)" and e4: "ends_newline s4" by simp_all
        have c4: "ci_literal ''(data):'' (s4 @ ?t) = map_option (\<lambda>r. r @ ?t) (ci_literal ''(data):'' s4)"
          using ci_literal_append(1)[of s4 "''(data):''" ?t] e4 by (simp add: ends_newline_def)
        have e5: "ci_literal ''(data):'' s4 = Some r \<Longrightarrow> ends_newline r" for r
          using ci_literal_append(2)[of s4 "''(data):''" r] e4 by (simp add: ends_newline_def)
        have m1: "match_VALIDATION_FN_DEF xs
            = map_option (\<lambda>r. (if takeWhile ?ws xs = [] then [] else [last (takeWhile ?ws xs)], g2, r))
                (ci_literal ''(data):'' s4)"
          using Some s3 os
          by (simp add: match_VALIDATION_FN_DEF_def Let_def s1_def[symmetric] s2'_def[symmetric]
              opt_def[symmetric] split: option.splits)
        have m2: "match_VALIDATION_FN_DEF (xs @ ?t)
            = map_option (\<lambda>r. (if takeWhile ?ws xs = [] then [] else [last (takeWhile ?ws xs)], g2, r))
                (ci_literal ''(data):'' (s4 @ ?t))"
          using c2 d1 c3 os'
          by (simp add: match_VALIDATION_FN_DEF_def Let_def w(2) w(3) s1_def[symmetric]
              s2'_def[symmetric] opt_def[symmetric] split: option.splits)
        show ?thesis unfolding m1 m2 c4 using e5
          by (cases "ci_literal ''(data):'' s4") simp_all
      qed
    qed
  qed
  from both show "match_VALIDATION_FN_DEF (xs @ y # ys)
         = map_option (\<lambda>(g1, g2, rest). (g1, g2, rest @ y # ys)) (match_VALIDATION_FN_DEF xs)"
    by blast
  from both show "match_VALIDATION_FN_DEF xs = Some (g1, g2, rest) \<Longrightarrow> ends_newline rest"
    by blast
qed

lemma match_head:
  assumes "y \<noteq> CHR 0x09" and "y \<noteq> CHR '' ''" and "lower_ascii y \<noteq> CHR ''d''"
  shows "match_VALIDATION_FN_DEF (y # ys) = None"
proof -
  have "ci_literal ''def'' (y # ys) = None" using assms(3) by (intro ci_literal_head) simp_all
  then show ?thesis using assms(1,2) by (simp add: match_VALIDATION_FN_DEF_def Let_def)
qed

lemma sub_line:
  "CHR 0x0A \<notin> set a \<Longrightarrow> sub_VALIDATION_FN_DEF False (a @ t) = a @ sub_VALIDATION_FN_DEF False t"
  by (induction a) auto

lemma sub_append:
  assumes "ends_newline xs" and "\<not> is_space y" and "lower_ascii y \<noteq> CHR ''v''"
  shows "sub_VALIDATION_FN_DEF bol (xs @ y # ys)
         = sub_VALIDATION_FN_DEF bol xs @ sub_VALIDATION_FN_DEF True (y # ys)
       \<and> ends_newline (sub_VALIDATION_FN_DEF bol xs)"
  using assms(1)
proof (induction "length xs" arbitrary: xs bol rule: less_induct)
  case less
  from less.prems obtain c cs where xs: "xs = c # cs" by (cases xs) (auto simp: ends_newline_def)
  let ?t = "y # ys"
  note ma1 = match_append(1)[OF less.prems assms(2,3), of ys]
  note ma2 = match_append(2)[OF less.prems assms(2,3)]
  show ?case
  proof (cases "if bol then match_VALIDATION_FN_DEF xs else None")
    case (Some m)
    obtain g1 g2 rest where m: "m = (g1, g2, rest)" by (cases m)
    with Some have bol: "bol" and mx: "match_VALIDATION_FN_DEF xs = Some (g1, g2, rest)"
      by (auto split: if_splits)
    from ma1 mx have mt: "match_VALIDATION_FN_DEF (xs @ ?t) = Some (g1, g2, rest @ ?t)" by simp
    from ma2[OF mx] have er: "ends_newline rest" .
    from match_shorter[OF mx] have "length rest < length xs" .
    from less.hyps[OF this er, of False]
    have ih: "sub_VALIDATION_FN_DEF False (rest @ ?t)
        = sub_VALIDATION_FN_DEF False rest @ sub_VALIDATION_FN_DEF True ?t"
      and ie: "ends_newline (sub_VALIDATION_FN_DEF False rest)" by simp_all
    have 1: "sub_VALIDATION_FN_DEF bol (xs @ ?t)
        = g1 @ ''def validate'' @ g2 @ ''(data, custom_formats):''
          @ sub_VALIDATION_FN_DEF False (rest @ ?t)"
      using bol mt unfolding xs by simp
    have 2: "sub_VALIDATION_FN_DEF bol xs
        = g1 @ ''def validate'' @ g2 @ ''(data, custom_formats):''
          @ sub_VALIDATION_FN_DEF False rest"
      using bol mx unfolding xs by simp
    have 3: "ends_newline (sub_VALIDATION_FN_DEF bol xs)"
      unfolding 2 using ie by (simp add: ends_newline_def)
    show ?thesis unfolding 1 ih using 2 3 by simp
  next
    case None
    then have nt: "(if bol then match_VALIDATION_FN_DEF (xs @ ?t) else None) = None"
      using ma1 by (auto split: if_splits)
    have 1: "sub_VALIDATION_FN_DEF bol (xs @ ?t) = c # sub_VALIDATION_FN_DEF (c = CHR 0x0A) (cs @ ?t)"
      using nt unfolding xs by (cases bol) simp_all
    have 2: "sub_VALIDATION_FN_DEF bol xs = c # sub_VALIDATION_FN_DEF (c = CHR 0x0A) cs"
      using None unfolding xs by (cases bol) simp_all
    show ?thesis
    proof (cases "cs = []")
      case True
      with less.prems xs have "c = CHR 0x0A" by (simp add: ends_newline_def)
      with True 1 2 show ?thesis by (simp add: ends_newline_def)
    next
      case False
      with less.prems xs have ec: "ends_newline cs" by (simp add: ends_newline_def)
      have "length cs < length xs" using xs by simp
      from less.hyps[OF this ec, of "c = CHR 0x0A"] 1 2 show ?thesis
        by (simp add: ends_newline_def)
    qed
  qed
qed

lemma suffix_trans': "suffix a b \<Longrightarrow> suffix b c \<Longrightarrow> suffix a c"
  by (auto simp: suffix_def)

lemma sublist_trans': "sublist a b \<Longrightarrow> sublist b c \<Longrightarrow> sublist a c"
proof -
  assume "sublist a b" and "sublist b c"
  then obtain p q p' q' where "b = p @ a @ q" and "c = p' @ b @ q'"
    by (auto simp: sublist_def)
  then have "c = (p' @ p) @ a @ (q @ q')" by simp
  then show ?thesis unfolding sublist_def by blast
qed

lemma ci_literal_suffix: "ci_literal lit s = Some r \<Longrightarrow> suffix r s"
  by (auto simp: ci_literal_def suffix_drop split: if_splits)

lemma is_word_equals: "\<not> is_word (CHR ''='')"
  by (simp add: is_word_def)

lemma match_result:
  assumes "match_VALIDATION_FN_DEF s = Some (g1, g2, rest)"
  shows "suffix rest s" and "CHR ''='' \<notin> set g1" and "CHR ''='' \<notin> set g2"
proof -
  let ?P = "\<lambda>c. c = CHR 0x09 \<or> c = CHR '' ''"
  let ?s1 = "dropWhile ?P s"
  let ?indent = "takeWhile ?P s"
  from assms obtain s2 where s2: "ci_literal ''def'' ?s1 = Some s2"
    by (auto simp: match_VALIDATION_FN_DEF_def Let_def split: option.splits)
  from assms s2 obtain s3 where s3: "ci_literal ''validate'' (dropWhile is_space s2) = Some s3"
    by (auto simp: match_VALIDATION_FN_DEF_def Let_def split: option.splits)
  from assms s2 s3 obtain s4 where s4: "ci_literal ''(data):'' s4 = Some rest"
    and g: "(g2, s4) = (case s3 of [] \<Rightarrow> ([], s3)
                     | c # cs \<Rightarrow>
                         if c = CHR ''_'' \<and> takeWhile is_word cs \<noteq> []
                         then (c # takeWhile is_word cs, dropWhile is_word cs)
                         else ([], s3))"
    and g1: "g1 = (if ?indent = [] then [] else [last ?indent])"
    by (auto simp: match_VALIDATION_FN_DEF_def Let_def split: option.splits prod.splits)
  have suf: "suffix s4 s3"
    using g by (auto split: list.splits if_splits intro: suffix_ConsI suffix_dropWhile)
  have "suffix rest s4" using s4 by (rule ci_literal_suffix)
  then have "suffix rest s3" using suf by (rule suffix_trans')
  moreover have "suffix s3 (dropWhile is_space s2)" using s3 by (rule ci_literal_suffix)
  moreover have "suffix (dropWhile is_space s2) s2" by (rule suffix_dropWhile)
  moreover have "suffix s2 ?s1" using s2 by (rule ci_literal_suffix)
  moreover have "suffix ?s1 s" by (rule suffix_dropWhile)
  ultimately show "suffix rest s" by (blast intro: suffix_trans')
  show "CHR ''='' \<notin> set g1"
  proof (cases "?indent = []")
    case True
    with g1 show ?thesis by simp
  next
    case False
    then have "last ?indent \<in> set ?indent" by (rule last_in_set)
    then have "?P (last ?indent)" by (rule set_takeWhileD[THEN conjunct2])
    with g1 False show ?thesis by auto
  qed
  show "CHR ''='' \<notin> set g2"
    using g is_word_equals
    by (auto split: list.splits if_splits dest: set_takeWhileD)
qed

lemma sub_prefix:
  "CHR 0x0A \<notin> set m \<Longrightarrow> prefix m (sub_VALIDATION_FN_DEF False t) \<Longrightarrow> prefix m t"
proof (induction m arbitrary: t)
  case Nil
  then show ?case by simp
next
  case (Cons a m)
  show ?case
  proof (cases t)
    case Nil
    with Cons.prems show ?thesis by simp
  next
    case (Cons d ds)
    with Cons.prems(2) have a: "a = d" and p: "prefix m (sub_VALIDATION_FN_DEF (d = CHR 0x0A) ds)"
      by simp_all
    from Cons.prems(1) a have "d \<noteq> CHR 0x0A" by auto
    with p have "prefix m (sub_VALIDATION_FN_DEF False ds)" by simp
    with Cons.IH Cons.prems(1) have "prefix m ds" by simp
    with a Cons show ?thesis by simp
  qed
qed

text \<open>A text without line ends and colons that holds an equals sign occurs in the
  rewritten code only where it occurred before.\<close>

lemma sub_sublist:
  assumes "CHR 0x0A \<notin> set m" and "CHR '':'' \<notin> set m" and "CHR ''='' \<in> set m"
  shows "sublist m (sub_VALIDATION_FN_DEF bol s) \<Longrightarrow> sublist m s"
proof (induction "length s" arbitrary: s bol rule: less_induct)
  case less
  show ?case
  proof (cases s)
    case Nil
    with less.prems show ?thesis by simp
  next
    case (Cons c cs)
    show ?thesis
    proof (cases "if bol then match_VALIDATION_FN_DEF s else None")
      case None
      then have 1: "sub_VALIDATION_FN_DEF bol s = c # sub_VALIDATION_FN_DEF (c = CHR 0x0A) cs"
        unfolding Cons by (cases bol) simp_all
      from less.prems[unfolded 1 sublist_Cons_right]
      consider "prefix m (c # sub_VALIDATION_FN_DEF (c = CHR 0x0A) cs)"
        | "sublist m (sub_VALIDATION_FN_DEF (c = CHR 0x0A) cs)" by blast
      then show ?thesis
      proof cases
        case 1
        show ?thesis
        proof (cases m)
          case Nil
          then show ?thesis by simp
        next
          case (Cons a m')
          with 1 have a: "a = c" and p: "prefix m' (sub_VALIDATION_FN_DEF (c = CHR 0x0A) cs)"
            by simp_all
          from assms(1) Cons a have "c \<noteq> CHR 0x0A" and n: "CHR 0x0A \<notin> set m'" by auto
          with p have "prefix m' (sub_VALIDATION_FN_DEF False cs)" by simp
          with n have "prefix m' cs" by (rule sub_prefix)
          then have "prefix m s" unfolding Cons \<open>s = c # cs\<close> a by simp
          then show ?thesis by (rule prefix_imp_sublist)
        qed
      next
        case 2
        have "length cs < length s" using Cons by simp
        from less.hyps[OF this 2] have "sublist m cs" .
        then show ?thesis unfolding Cons by (simp add: sublist_Cons_right)
      qed
    next
      case (Some x)
      obtain g1 g2 rest where x: "x = (g1, g2, rest)" by (cases x)
      with Some have bol: "bol" and mx: "match_VALIDATION_FN_DEF s = Some (g1, g2, rest)"
        by (auto split: if_splits)
      define ins where "ins = g1 @ ''def validate'' @ g2 @ ''(data, custom_formats):''"
      have 1: "sub_VALIDATION_FN_DEF bol s = ins @ sub_VALIDATION_FN_DEF False rest"
        using bol mx unfolding Cons ins_def by simp
      have li: "ins \<noteq> []" "last ins = CHR '':''" by (simp_all add: ins_def)
      have ei: "CHR ''='' \<notin> set ins"
        using match_result(2,3)[OF mx] by (simp add: ins_def)
      from less.prems[unfolded 1 sublist_append]
      consider "sublist m ins" | "sublist m (sub_VALIDATION_FN_DEF False rest)"
        | m1 m2 where "m = m1 @ m2" "suffix m1 ins" "prefix m2 (sub_VALIDATION_FN_DEF False rest)"
        by blast
      then have r: "sublist m (sub_VALIDATION_FN_DEF False rest)"
      proof cases
        case 1
        then have "set m \<subseteq> set ins" by (rule set_mono_sublist)
        with assms(3) ei show ?thesis by blast
      next
        case 2
        then show ?thesis .
      next
        case 3
        have "m1 = []"
        proof (rule ccontr)
          assume ne: "m1 \<noteq> []"
          from 3(2) obtain p where "ins = p @ m1" by (auto simp: suffix_def)
          with ne li have "last m1 = CHR '':''" by simp
          with ne have "CHR '':'' \<in> set m1" by (metis last_in_set)
          with 3(1) assms(2) show False by simp
        qed
        with 3 show ?thesis by simp
      qed
      have "length rest < length s" using mx by (rule match_shorter)
      from less.hyps[OF this r] have "sublist m rest" .
      moreover have "sublist rest s" using match_result(1)[OF mx] by (rule suffix_imp_sublist)
      ultimately show ?thesis by (rule sublist_trans')
    qed
  qed
qed

text \<open>The rewrite of the signatures around a line that is no signature.\<close>

lemma sub_around:
  assumes "before = [] \<or> ends_newline before"
    and "CHR 0x0A \<notin> set (y # l)"
    and "y \<noteq> CHR 0x09" and "\<not> is_space y"
    and "lower_ascii y \<noteq> CHR ''v''" and "lower_ascii y \<noteq> CHR ''d''"
  shows "sub_VALIDATION_FN_DEF True (before @ (y # l) @ after)
         = sub_VALIDATION_FN_DEF True before @ (y # l) @ sub_VALIDATION_FN_DEF False after"
proof -
  have sp: "y \<noteq> CHR '' ''" using assms(4) by (auto simp: is_space_def)
  have "match_VALIDATION_FN_DEF (y # l @ after) = None"
    using assms(3) sp assms(6) by (rule match_head)
  then have "sub_VALIDATION_FN_DEF True (y # l @ after)
      = y # sub_VALIDATION_FN_DEF (y = CHR 0x0A) (l @ after)" by simp
  also have "\<dots> = y # sub_VALIDATION_FN_DEF False (l @ after)" using assms(2) by auto
  also have "\<dots> = y # l @ sub_VALIDATION_FN_DEF False after"
    using assms(2) by (simp add: sub_line)
  finally have line: "sub_VALIDATION_FN_DEF True (y # l @ after)
      = (y # l) @ sub_VALIDATION_FN_DEF False after" by simp
  show ?thesis
  proof (cases "before = []")
    case True
    with line show ?thesis by simp
  next
    case False
    with assms(1) have "ends_newline before" by simp
    from sub_append[OF this assms(4,5), of True "l @ after"] line
    show ?thesis by simp
  qed
qed

text \<open>\<^verbatim>\<open>str.replace\<close> on a text in which the old text occurs once.\<close>

lemma replace_str_absent:
  "old \<noteq> [] \<Longrightarrow> \<not> is_substring old s \<Longrightarrow> replace_str old new s = s"
  by (induction s) simp_all

lemma take_prefix: "n \<le> length xs \<Longrightarrow> take n (xs @ ys) = take n xs"
  by simp

lemma take_append_butlast:
  assumes "old \<noteq> []" and "u \<noteq> []"
  shows "take (length old) (u @ old @ b) = take (length old) (u @ butlast old)"
proof -
  define v where "v = u @ butlast old"
  have "old = butlast old @ [last old]" using assms(1) by simp
  then have "u @ old @ b = u @ (butlast old @ [last old]) @ b" by simp
  then have split: "u @ old @ b = v @ (last old # b)" by (simp add: v_def)
  have "length old \<le> length v"
    using assms by (cases u) (simp_all add: v_def)
  then have t: "take (length old) (v @ (last old # b)) = take (length old) v"
    by (rule take_prefix)
  have "take (length old) (u @ old @ b) = take (length old) (v @ (last old # b))"
    by (simp only: split)
  also note t
  finally show ?thesis by (simp only: v_def)
qed

lemma replace_str_first:
  assumes "old \<noteq> []" and "\<not> is_substring old (a @ butlast old)"
  shows "replace_str old new (a @ old @ b) = a @ new @ replace_str old new b"
  using assms(2)
proof (induction a)
  case Nil
  from assms(1) obtain c cs where old: "old = c # cs" by (cases old) auto
  have "replace_str old new (old @ b) = new @ replace_str old new (drop (length old) (old @ b))"
    unfolding old by simp
  then show ?case by simp
next
  case (Cons x a)
  from Cons.prems have n1: "take (length old) ((x # a) @ butlast old) \<noteq> old"
    and n2: "\<not> is_substring old (a @ butlast old)" by simp_all
  from n1 take_append_butlast[OF assms(1), of "x # a" b]
  have "take (length old) (x # a @ old @ b) \<noteq> old" by simp
  with assms(1) Cons.IH[OF n2] show ?case by simp
qed

lemma join_map_empty:
  assumes "\<And>x. g x \<noteq> []"
  shows "(join sep (map g fs) = []) = (fs = [])"
proof (cases fs)
  case Nil
  then show ?thesis by simp
next
  case (Cons x xs)
  with assms show ?thesis by (cases xs) simp_all
qed

lemma repr_regex_shape:
  "repr_regex py_repr r =
     ''re.compile('' @ py_repr (rx_pattern r)
       @ (if named_flags r = [] then []
          else '', '' @ join '' | '' (map (\<lambda>f. ''re.'' @ f) (named_flags r)))
       @ '')''"
proof -
  define names where "names = map (\<lambda>f. ''re.'' @ f) (named_flags r)"
  have e: "(join '' | '' names = []) = (named_flags r = [])"
    unfolding names_def by (rule join_map_empty) simp
  have "repr_regex py_repr r =
     ''re.compile('' @ py_repr (rx_pattern r)
       @ (if join '' | '' names \<noteq> [] then '', '' @ join '' | '' names else [])
       @ '')''"
    unfolding names_def repr_regex_def named_flags_def Let_def by (rule refl)
  also have "\<dots> = ''re.compile('' @ py_repr (rx_pattern r)
       @ (if named_flags r = [] then [] else '', '' @ join '' | '' names)
       @ '')''"
    using e by simp
  finally show ?thesis unfolding names_def .
qed


text \<open>The search passes over the lines without the marker and stops at the assignment.\<close>

lemma split_lines_line:
  "CHR 0x0A \<notin> set a \<Longrightarrow> split_lines (a @ CHR 0x0A # t) = a # split_lines t"
  by (induction a) auto

lemma split_lines_single: "CHR 0x0A \<notin> set a \<Longrightarrow> split_lines a = [a]"
  by (induction a) auto

lemma match_PICKLED_PATTERNS_None:
  assumes "\<not> sublist PICKLED_HEAD l"
  shows "match_PICKLED_PATTERNS l = None"
proof -
  have "take (length PICKLED_HEAD) l \<noteq> PICKLED_HEAD"
  proof
    assume "take (length PICKLED_HEAD) l = PICKLED_HEAD"
    then have "prefix PICKLED_HEAD l" by (metis take_is_prefix)
    with assms show False by (simp add: prefix_imp_sublist)
  qed
  then show ?thesis by (simp add: match_PICKLED_PATTERNS_def Let_def)
qed

text \<open>The dot of the pattern: any character may stand between \<^verbatim>\<open>pickle\<close> and
  \<^verbatim>\<open>loads\<close>.\<close>

lemma match_PICKLED_PATTERNS_line:
  "match_PICKLED_PATTERNS (PICKLED_HEAD @ c # PICKLED_CALL @ payload @ '')'')
   = Some (PICKLED_HEAD @ c # PICKLED_CALL @ payload @ '')'', payload)"
  by (simp add: match_PICKLED_PATTERNS_def PICKLED_HEAD_def PICKLED_CALL_def)

lemma search_skip:
  assumes "b = [] \<or> ends_newline b" and "\<not> sublist PICKLED_HEAD b"
  shows "first_match match_PICKLED_PATTERNS (split_lines (b @ t))
         = first_match match_PICKLED_PATTERNS (split_lines t)"
  using assms
proof (induction "length b" arbitrary: b rule: less_induct)
  case less
  show ?case
  proof (cases "b = []")
    case True
    then show ?thesis by simp
  next
    case False
    with less.prems(1) have e: "last b = CHR 0x0A" by (simp add: ends_newline_def)
    let ?P = "\<lambda>c. c \<noteq> CHR 0x0A"
    define a where "a = takeWhile ?P b"
    define d where "d = dropWhile ?P b"
    have b: "b = a @ d" by (simp add: a_def d_def)
    have "CHR 0x0A \<in> set b" using False e by (metis last_in_set)
    then have dne: "d \<noteq> []" by (auto simp: d_def)
    then have "\<not> ?P (hd d)" unfolding d_def by (rule hd_dropWhile)
    with dne obtain r where d: "d = CHR 0x0A # r" by (cases d) auto
    have na: "CHR 0x0A \<notin> set a" unfolding a_def by (auto dest: set_takeWhileD)
    have br: "b = a @ CHR 0x0A # r" using b d by simp
    have r1: "r = [] \<or> ends_newline r" using e br by (auto simp: ends_newline_def)
    have "sublist r b" unfolding br by (metis sublist_appendI append_Cons append_Nil append_assoc suffix_imp_sublist suffixI)
    with less.prems(2) have r2: "\<not> sublist PICKLED_HEAD r" by (blast intro: sublist_trans')
    have "sublist a b" unfolding br by simp
    with less.prems(2) have "\<not> sublist PICKLED_HEAD a" by (blast intro: sublist_trans')
    then have ma: "match_PICKLED_PATTERNS a = None" by (rule match_PICKLED_PATTERNS_None)
    have "length r < length b" using br by simp
    from less.hyps[OF this r1 r2]
    have ih: "first_match match_PICKLED_PATTERNS (split_lines (r @ t))
         = first_match match_PICKLED_PATTERNS (split_lines t)" .
    have "split_lines (b @ t) = a # split_lines (r @ t)"
      using split_lines_line[OF na, of "r @ t"] br by simp
    then show ?thesis using ma ih by simp
  qed
qed

text \<open>The value of the names that \<^verbatim>\<open>_repr_regex\<close> joins.\<close>

lemma and_power_of_two:
  assumes "(x::int) AND 2 ^ k \<noteq> 0"
  shows "x AND 2 ^ k = 2 ^ k"
proof -
  from assms have "bit x k" by (simp add: and_exp_eq_0_iff_not_bit)
  then show ?thesis by (auto intro!: bit_eqI simp: bit_and_iff bit_exp_iff)
qed

lemma flags_value_filter:
  assumes "\<forall>f \<in> set fs. \<exists>k. re_flag f = 2 ^ k"
  shows "flags_value (filter (\<lambda>f. x AND re_flag f \<noteq> 0) fs) = x AND flags_value fs"
  using assms
proof (induction fs)
  case Nil
  then show ?case by (simp add: flags_value_def)
next
  case (Cons f fs)
  then obtain k where k: "re_flag f = 2 ^ k" by auto
  from Cons have ih: "flags_value (filter (\<lambda>f. x AND re_flag f \<noteq> 0) fs) = x AND flags_value fs"
    by simp
  have v: "flags_value (f # fs) = re_flag f OR flags_value fs" for fs
    by (simp add: flags_value_def)
  show ?case
  proof (cases "x AND re_flag f = 0")
    case True
    then show ?thesis using ih by (simp add: v bit.conj_disj_distrib)
  next
    case False
    then have "x AND re_flag f = re_flag f" unfolding k by (rule and_power_of_two)
    then show ?thesis using False ih by (simp add: v bit.conj_disj_distrib)
  qed
qed

lemma all_flags_powers: "\<forall>f \<in> set all_flags. \<exists>k. re_flag f = 2 ^ k"
proof -
  have "\<exists>k. re_flag ''A'' = 2 ^ k" by (rule exI[of _ 8]) (simp add: re_flag_def)
  moreover have "\<exists>k. re_flag ''I'' = 2 ^ k" by (rule exI[of _ 1]) (simp add: re_flag_def)
  moreover have "\<exists>k. re_flag ''DEBUG'' = 2 ^ k" by (rule exI[of _ 7]) (simp add: re_flag_def)
  moreover have "\<exists>k. re_flag ''L'' = 2 ^ k" by (rule exI[of _ 2]) (simp add: re_flag_def)
  moreover have "\<exists>k. re_flag ''M'' = 2 ^ k" by (rule exI[of _ 3]) (simp add: re_flag_def)
  moreover have "\<exists>k. re_flag ''S'' = 2 ^ k" by (rule exI[of _ 4]) (simp add: re_flag_def)
  moreover have "\<exists>k. re_flag ''X'' = 2 ^ k" by (rule exI[of _ 6]) (simp add: re_flag_def)
  ultimately show ?thesis unfolding all_flags_def by simp
qed

text \<open>The seven flags that have a name, together: 256 (\<^verbatim>\<open>A\<close>), 2 (\<^verbatim>\<open>I\<close>), 128
  (\<^verbatim>\<open>DEBUG\<close>), 4 (\<^verbatim>\<open>L\<close>), 8 (\<^verbatim>\<open>M\<close>), 16 (\<^verbatim>\<open>S\<close>) and 64 (\<^verbatim>\<open>X\<close>).\<close>

lemma flags_value_all_flags: "flags_value all_flags = 478"
  by (simp add: flags_value_def all_flags_def re_flag_def)

lemma named_flags_value: "flags_value (named_flags r) = rx_flags r AND 478"
proof -
  have "flags_value (named_flags r) = rx_flags r AND flags_value all_flags"
    unfolding named_flags_def using all_flags_powers by (rule flags_value_filter)
  then show ?thesis by (simp only: flags_value_all_flags)
qed

lemma PICKLED_HEAD_chars:
  "CHR 0x0A \<notin> set PICKLED_HEAD" "CHR '':'' \<notin> set PICKLED_HEAD" "CHR ''='' \<in> set PICKLED_HEAD"
  by (simp_all add: PICKLED_HEAD_def)

lemma sub_PICKLED_HEAD:
  "\<not> is_substring PICKLED_HEAD s \<Longrightarrow> \<not> is_substring PICKLED_HEAD (sub_VALIDATION_FN_DEF bol s)"
  unfolding is_substring_sublist using sub_sublist[OF PICKLED_HEAD_chars] by blast

lemma pickled_assignment_shape:
  "pickled_assignment payload = PICKLED_HEAD @ CHR ''.'' # PICKLED_CALL @ payload @ '')''"
  by (simp add: pickled_assignment_def PICKLED_HEAD_def PICKLED_CALL_def)

lemma pickled_assignment_found:
  assumes "b = [] \<or> ends_newline b" and "\<not> sublist PICKLED_HEAD b"
    and "CHR 0x0A \<notin> set payload" and "a = [] \<or> hd a = CHR 0x0A"
  shows "search_PICKLED_PATTERNS (b @ pickled_assignment payload @ a)
         = Some (pickled_assignment payload, payload)"
proof -
  let ?asg = "pickled_assignment payload"
  have nl: "CHR 0x0A \<notin> set ?asg"
    using assms(3) by (simp add: pickled_assignment_def)
  have m: "match_PICKLED_PATTERNS ?asg = Some (?asg, payload)"
    unfolding pickled_assignment_shape by (rule match_PICKLED_PATTERNS_line)
  have "first_match match_PICKLED_PATTERNS (split_lines (?asg @ a)) = Some (?asg, payload)"
  proof (cases a)
    case Nil
    then show ?thesis using split_lines_single[OF nl] m by simp
  next
    case (Cons x xs)
    with assms(4) have "a = CHR 0x0A # xs" by simp
    then show ?thesis using split_lines_line[OF nl, of xs] m by simp
  qed
  then show ?thesis
    unfolding search_PICKLED_PATTERNS_def using search_skip[OF assms(1,2), of "?asg @ a"] by simp
qed

lemma pickled_assignment_once:
  assumes "b = [] \<or> ends_newline b" and "\<not> sublist PICKLED_HEAD b"
    and "CHR 0x0A \<notin> set payload"
  shows "\<not> sublist (pickled_assignment payload) (b @ butlast (pickled_assignment payload))"
proof
  let ?asg = "pickled_assignment payload"
  assume "sublist ?asg (b @ butlast ?asg)"
  then consider "sublist ?asg b" | "sublist ?asg (butlast ?asg)"
    | m1 m2 where "?asg = m1 @ m2" "suffix m1 b" "prefix m2 (butlast ?asg)"
    unfolding sublist_append by blast
  then show False
  proof cases
    case 1
    have "sublist PICKLED_HEAD ?asg" unfolding pickled_assignment_shape by simp
    then have "sublist PICKLED_HEAD b" using 1 by (rule sublist_trans')
    with assms(2) show False by simp
  next
    case 2
    then have "length ?asg \<le> length (butlast ?asg)" by (rule sublist_length_le)
    then show False by (simp add: pickled_assignment_def)
  next
    case 3
    have nl: "CHR 0x0A \<notin> set ?asg"
      using assms(3) by (simp add: pickled_assignment_def)
    show False
    proof (cases "m1 = []")
      case True
      with 3 have "prefix ?asg (butlast ?asg)" by simp
      then have "length ?asg \<le> length (butlast ?asg)" by (rule prefix_length_le)
      then show False by (simp add: pickled_assignment_def)
    next
      case False
      from 3(2) obtain p where b: "b = p @ m1" by (auto simp: suffix_def)
      with False have "b \<noteq> []" by simp
      with assms(1) have "last b = CHR 0x0A" by (simp add: ends_newline_def)
      with b False have "last m1 = CHR 0x0A" by simp
      with False have "CHR 0x0A \<in> set m1" by (metis last_in_set)
      then have "CHR 0x0A \<in> set (m1 @ m2)" by simp
      with nl 3(1) show False by simp
    qed
  qed
qed

text \<open>
  C8. When the generated source holds the assignment
  \<^verbatim>\<open>REGEX_PATTERNS = pickle.loads(...)\<close> on a line of its own, and the marker
  \<^verbatim>\<open>REGEX_PATTERNS = pickle\<close> occurs nowhere else in it (the assignment is the single
  one), \<^verbatim>\<open>_fix_generated_code\<close> finds that assignment and returns the headers and the code
  in which it, and nothing else but the import of \<^verbatim>\<open>pickle\<close>, is replaced; the text
  before and after it is the one the rewrite of the signatures gives, and the marker does
  not occur in it. In place of the assignment stands a dictionary literal that maps the
  \<^verbatim>\<open>repr\<close> of each key to \<^verbatim>\<open>re.compile\<close> of the \<^verbatim>\<open>repr\<close> of the pattern and, when the
  expression has any of the named flags set, of their names joined by \<^verbatim>\<open>|\<close>; the value
  of that disjunction is the flags of the expression restricted to the seven flags that
  have a name (478 is the seven of them together). The pickled payload is the text between the parentheses of the assignment,
  and it is gone with it.
\<close>

theorem fix_generated_code_regex_table:
  assumes "code = before @ pickled_assignment payload @ after"
    and "before = [] \<or> last before = CHR 0x0A"
    and "after = [] \<or> hd after = CHR 0x0A"
    and "CHR 0x0A \<notin> set payload"
    and "\<not> is_substring PICKLED_HEAD before"
    and "\<not> is_substring PICKLED_HEAD after"
    and "unpickle payload = Inr regexes"
  shows "fix_generated_code unpickle py_repr code
        = Inr (join [CHR 0x0A] NOCHECK_HEADERS
               @ replace_str ''import re, pickle'' ''import re''
                   (sub_VALIDATION_FN_DEF True before
                    @ regex_table py_repr regexes
                    @ sub_VALIDATION_FN_DEF False after))
    \<and> \<not> is_substring PICKLED_HEAD (sub_VALIDATION_FN_DEF True before)
    \<and> \<not> is_substring PICKLED_HEAD (sub_VALIDATION_FN_DEF False after)
    \<and> regex_table py_repr regexes
        = ''REGEX_PATTERNS = {'' @ [CHR 0x0A] @ ''    ''
          @ join ('','' @ [CHR 0x0A] @ ''    '')
              (map (\<lambda>(k, r).
                      py_repr k @ '': re.compile('' @ py_repr (rx_pattern r)
                      @ (if named_flags r = [] then []
                         else '', '' @ join '' | '' (map (\<lambda>f. ''re.'' @ f) (named_flags r)))
                      @ '')'')
                 regexes)
          @ [CHR 0x0A] @ ''}''
    \<and> flags_value (named_flags r) = rx_flags r AND 478"
proof -
  let ?asg = "pickled_assignment payload"
  let ?B = "sub_VALIDATION_FN_DEF True before"
  let ?A = "sub_VALIDATION_FN_DEF False after"
  let ?table = "regex_table py_repr regexes"
  obtain l where l: "?asg = CHR ''R'' # l" by (simp add: pickled_assignment_def)
  have nl: "CHR 0x0A \<notin> set (CHR ''R'' # l)"
    unfolding l[symmetric] using assms(4) by (simp add: pickled_assignment_def)
  have y: "CHR ''R'' \<noteq> CHR 0x09" "\<not> is_space CHR ''R''"
    "lower_ascii CHR ''R'' \<noteq> CHR ''v''" "lower_ascii CHR ''R'' \<noteq> CHR ''d''"
    by (simp_all add: is_space_def lower_ascii_def)
  have eb: "before = [] \<or> ends_newline before"
    using assms(2) by (auto simp: ends_newline_def)
  have s: "sub_VALIDATION_FN_DEF True code = ?B @ ?asg @ ?A"
    unfolding assms(1) l using eb nl y by (rule sub_around)
  have eB: "?B = [] \<or> ends_newline ?B"
  proof (cases "before = []")
    case True
    then show ?thesis by simp
  next
    case False
    with eb have "ends_newline before" by simp
    from sub_append[OF this y(2,3), of True l] show ?thesis by simp
  qed
  have nB: "\<not> is_substring PICKLED_HEAD ?B" using assms(5) by (rule sub_PICKLED_HEAD)
  have nA: "\<not> is_substring PICKLED_HEAD ?A" using assms(6) by (rule sub_PICKLED_HEAD)
  have hA: "?A = [] \<or> hd ?A = CHR 0x0A"
    using assms(3) by (cases after) auto
  have found: "search_PICKLED_PATTERNS (sub_VALIDATION_FN_DEF True code) = Some (?asg, payload)"
    unfolding s using eB nB[unfolded is_substring_sublist] assms(4) hA
    by (rule pickled_assignment_found)
  have ne: "?asg \<noteq> []" by (simp add: l)
  have once: "\<not> is_substring ?asg (?B @ butlast ?asg)"
    unfolding is_substring_sublist
    using eB nB[unfolded is_substring_sublist] assms(4) by (rule pickled_assignment_once)
  have gone: "\<not> is_substring ?asg ?A"
  proof
    assume "is_substring ?asg ?A"
    then have "sublist ?asg ?A" by (simp add: is_substring_sublist)
    moreover have "sublist PICKLED_HEAD ?asg" unfolding pickled_assignment_shape by simp
    ultimately have "sublist PICKLED_HEAD ?A" by (blast intro: sublist_trans')
    with nA show False by (simp add: is_substring_sublist)
  qed
  have "replace_str ?asg ?table (?B @ ?asg @ ?A) = ?B @ ?table @ replace_str ?asg ?table ?A"
    using ne once by (rule replace_str_first)
  also have "replace_str ?asg ?table ?A = ?A"
    using ne gone by (rule replace_str_absent)
  finally have r: "replace_str ?asg ?table (sub_VALIDATION_FN_DEF True code) = ?B @ ?table @ ?A"
    unfolding s .
  have fixed: "fix_generated_code unpickle py_repr code
        = Inr (join [CHR 0x0A] NOCHECK_HEADERS
               @ replace_str ''import re, pickle'' ''import re'' (?B @ ?table @ ?A))"
    using found assms(7) r by (simp add: fix_generated_code_def Let_def)
  have tab: "?table
        = ''REGEX_PATTERNS = {'' @ [CHR 0x0A] @ ''    ''
          @ join ('','' @ [CHR 0x0A] @ ''    '')
              (map (\<lambda>(k, r).
                      py_repr k @ '': re.compile('' @ py_repr (rx_pattern r)
                      @ (if named_flags r = [] then []
                         else '', '' @ join '' | '' (map (\<lambda>f. ''re.'' @ f) (named_flags r)))
                      @ '')'')
                 regexes)
          @ [CHR 0x0A] @ ''}''"
    unfolding regex_table_def Let_def repr_regex_shape by simp
  show ?thesis
    by (rule conjI[OF fixed conjI[OF nB conjI[OF nA conjI[OF tab named_flags_value]]]])
qed

theorem fix_generated_code_regex_table_witness:
  "fix_generated_code ex_unpickle ex_repr ex_code
   = Inr (join [CHR 0x0A] NOCHECK_HEADERS
          @ ''import re\<newline>REGEX_PATTERNS = {\<newline>    '^a+$': re.compile('^a+$', re.I | re.M)\<newline>}\<newline>def validate(data, custom_formats):\<newline>    return data'')
   \<and> flags_value [''I'', ''M''] = 10"
proof -
  let ?before = "''import re, pickle\<newline>''"
  let ?payload = "''b'x'' @ [CHR 0x27]"
  let ?after = "''\<newline>def validate(data):\<newline>    return data''"
  let ?r = "\<lparr>rx_pattern = ''^a+$'', rx_flags = 42\<rparr>"
  have h1: "ex_code = ?before @ pickled_assignment ?payload @ ?after"
    by (simp add: ex_code_def pickled_assignment_def)
  have h2: "?before = [] \<or> last ?before = CHR 0x0A" by simp
  have h3: "?after = [] \<or> hd ?after = CHR 0x0A" by simp
  have h4: "CHR 0x0A \<notin> set ?payload" by simp
  have h5: "\<not> is_substring PICKLED_HEAD ?before" by (simp add: PICKLED_HEAD_def)
  have h6: "\<not> is_substring PICKLED_HEAD ?after" by (simp add: PICKLED_HEAD_def)
  have h7: "ex_unpickle ?payload = Inr [(''^a+$'', ?r)]"
    by (simp add: ex_unpickle_def)
  have n: "named_flags ?r = [''I'', ''M'']"
    by (simp add: named_flags_def all_flags_def re_flag_def)
  have b: "sub_VALIDATION_FN_DEF True ?before = ?before"
    by (simp add: match_VALIDATION_FN_DEF_def ci_literal_def lower_ascii_def
        is_space_def is_word_def)
  have a: "sub_VALIDATION_FN_DEF False ?after
      = ''\<newline>def validate(data, custom_formats):\<newline>    return data''"
    by (simp add: match_VALIDATION_FN_DEF_def ci_literal_def lower_ascii_def
        is_space_def is_word_def)
  have v: "flags_value [''I'', ''M''] = 10"
    by (simp add: flags_value_def re_flag_def)
  from fix_generated_code_regex_table[where unpickle = ex_unpickle and py_repr = ex_repr
      and r = ?r, OF h1 h2 h3 h4 h5 h6 h7]
  show ?thesis unfolding b a using v by (simp add: n ex_repr_def)
qed

section \<open>The licences\<close>

















end
